theory Spec2Isabelle
  imports Main
begin

section \<open>Results, pointers and the heap of arrays\<close>

text \<open>
  The repository is two headers: \<^verbatim>\<open>array_ptr.h\<close> (class \<^verbatim>\<open>ArrayPtr\<close>, the sole owner
  of one \<^verbatim>\<open>new[]\<close> allocation) and \<^verbatim>\<open>simple_vector.h\<close> (class \<^verbatim>\<open>SimpleVector\<close>).
  Both work on raw pointers, so the model has an explicit heap of arrays.

  \<^item> \<^verbatim>\<open>std::out_of_range\<close> is the only exception the code throws itself; a failed
    \<^verbatim>\<open>assert\<close> aborts; an access outside a live array, pointer arithmetic on
    \<^verbatim>\<open>nullptr\<close> and a second \<^verbatim>\<open>delete[]\<close> are undefined behaviour. Each is a value of
    \<open>error\<close>, and a fallible function returns \<open>error + 'a\<close>.
  \<^item> \<^verbatim>\<open>size_t\<close> is \<open>nat\<close>. The allocator is taken to succeed always, so no
    \<^verbatim>\<open>std::bad_alloc\<close> appears; in return no bound on sizes is assumed. On a real
    machine an array of \<open>n\<close> elements exists only for \<open>n < 2 ^ 63\<close>, so that
    \<^verbatim>\<open>capacity_ * 2\<close> and \<^verbatim>\<open>size_++\<close> never wrap where the allocation succeeded.
  \<^item> Moving an element is modelled as copying it: the moved-from slot keeps its value.
    The slots the code moves from are either overwritten, destroyed, or left beyond
    \<^verbatim>\<open>size_\<close>, so the choice is not visible in \<^verbatim>\<open>[begin(), end())\<close>. The one
    exception is the argument of the \<^verbatim>\<open>Type&&\<close> overloads of \<^verbatim>\<open>PushBack\<close> and
    \<^verbatim>\<open>Insert\<close>, which the callee leaves moved-from: where the argument is itself an
    element of an array, the model is of the \<^verbatim>\<open>const Type&\<close> overloads.
\<close>

datatype error = OutOfRange | AssertionFailed | UndefinedBehaviour

definition and_then :: "error + 'a \<Rightarrow> ('a \<Rightarrow> error + 'b) \<Rightarrow> error + 'b" where
  "and_then m f = (case m of Inl e \<Rightarrow> Inl e | Inr x \<Rightarrow> f x)"

definition assert :: "bool \<Rightarrow> error + unit" where
  "assert b = (if b then Inr () else Inl AssertionFailed)"

text \<open>
  A \<^verbatim>\<open>Type*\<close> is \<^verbatim>\<open>nullptr\<close> or points at element \<open>i\<close> of allocation \<open>a\<close>
  (\<open>i\<close> may be one past the end). Forming a pointer is not checked against the length of
  the allocation; every access through it is.
\<close>

datatype pointer = Null | Ptr nat nat

definition ptr_add :: "pointer \<Rightarrow> nat \<Rightarrow> error + pointer" where
  "ptr_add p n = (case p of
       Null \<Rightarrow> if n = 0 then Inr Null else Inl UndefinedBehaviour
     | Ptr a i \<Rightarrow> Inr (Ptr a (i + n)))"

definition ptr_sub :: "pointer \<Rightarrow> nat \<Rightarrow> error + pointer" where
  "ptr_sub p n = (case p of
       Null \<Rightarrow> if n = 0 then Inr Null else Inl UndefinedBehaviour
     | Ptr a i \<Rightarrow> if n \<le> i then Inr (Ptr a (i - n)) else Inl UndefinedBehaviour)"

text \<open>\<^verbatim>\<open>p <= q\<close>: pointers into different arrays compare as unordered (the standard
  leaves the result unspecified).\<close>

definition ptr_le :: "pointer \<Rightarrow> pointer \<Rightarrow> bool" where
  "ptr_le p q = (case (p, q) of
       (Null, Null) \<Rightarrow> True
     | (Ptr a i, Ptr b j) \<Rightarrow> a = b \<and> i \<le> j
     | _ \<Rightarrow> False)"

text \<open>\<^verbatim>\<open>last - first\<close> for \<^verbatim>\<open>first <= last\<close>; the length of the range \<^verbatim>\<open>[first, last)\<close>.\<close>

definition distance :: "pointer \<Rightarrow> pointer \<Rightarrow> error + nat" where
  "distance first lst = (case (first, lst) of
       (Null, Null) \<Rightarrow> Inr 0
     | (Ptr a i, Ptr b j) \<Rightarrow> if a = b \<and> i \<le> j then Inr (j - i) else Inl UndefinedBehaviour
     | _ \<Rightarrow> Inl UndefinedBehaviour)"

text \<open>
  The heap is the list of all arrays ever allocated: \<open>Some xs\<close> is a live array,
  \<open>None\<close> one that \<^verbatim>\<open>delete[]\<close> has freed. \<^verbatim>\<open>new Type[n]()\<close> appends a value-initialised
  array, so its address is fresh.
\<close>

type_synonym 'a heap = "'a list option list"

definition block :: "'a heap \<Rightarrow> nat \<Rightarrow> 'a list option" where
  "block h a = (if a < length h then h ! a else None)"

definition new_array :: "'a \<Rightarrow> nat \<Rightarrow> 'a heap \<Rightarrow> pointer \<times> 'a heap" where
  "new_array d n h = (Ptr (length h) 0, h @ [Some (replicate n d)])"

definition delete_array :: "pointer \<Rightarrow> 'a heap \<Rightarrow> error + 'a heap" where
  "delete_array p h = (case p of
       Null \<Rightarrow> Inr h
     | Ptr a i \<Rightarrow> if i = 0 \<and> block h a \<noteq> None then Inr (h[a := None])
                 else Inl UndefinedBehaviour)"

definition load :: "'a heap \<Rightarrow> pointer \<Rightarrow> error + 'a" where
  "load h p = (case p of
       Null \<Rightarrow> Inl UndefinedBehaviour
     | Ptr a i \<Rightarrow> (case block h a of
           None \<Rightarrow> Inl UndefinedBehaviour
         | Some xs \<Rightarrow> if i < length xs then Inr (xs ! i) else Inl UndefinedBehaviour))"

definition store :: "'a heap \<Rightarrow> pointer \<Rightarrow> 'a \<Rightarrow> error + 'a heap" where
  "store h p v = (case p of
       Null \<Rightarrow> Inl UndefinedBehaviour
     | Ptr a i \<Rightarrow> (case block h a of
           None \<Rightarrow> Inl UndefinedBehaviour
         | Some xs \<Rightarrow> if i < length xs then Inr (h[a := Some (xs[i := v])])
                      else Inl UndefinedBehaviour))"

text \<open>
  A parameter of type \<^verbatim>\<open>const Type&\<close> or \<^verbatim>\<open>Type&&\<close> is a reference, and the callee reads
  the object it refers to at the statement that uses it, not at the call. The object is
  either an element of an array of the heap, which the callee may have overwritten or
  freed by then, or an object outside the heap of arrays (a local variable, a
  temporary), which no function of the two headers can reach: \<open>Object x\<close> is a reference
  to such an object, whose value is \<open>x\<close>.
\<close>

datatype 'a cref = Object 'a | Element pointer

definition read_ref :: "'a heap \<Rightarrow> 'a cref \<Rightarrow> error + 'a" where
  "read_ref h v = (case v of Object x \<Rightarrow> Inr x | Element p \<Rightarrow> load h p)"


section \<open>Library algorithms on pointer ranges\<close>

text \<open>
  The algorithms of \<^verbatim>\<open><algorithm>\<close> the code calls, element by element and in the order
  the standard prescribes, so that overlapping ranges behave as in the program. A range
  that is not valid (\<open>distance\<close> fails) is undefined behaviour.
\<close>

fun copy_loop :: "nat \<Rightarrow> pointer \<Rightarrow> pointer \<Rightarrow> 'a heap \<Rightarrow> error + (pointer \<times> 'a heap)" where
  "copy_loop 0 first d_first h = Inr (d_first, h)"
| "copy_loop (Suc n) first d_first h =
     and_then (load h first) (\<lambda>x.
     and_then (store h d_first x) (\<lambda>h'.
     and_then (ptr_add first 1) (\<lambda>first'.
     and_then (ptr_add d_first 1) (\<lambda>d_first'.
     copy_loop n first' d_first' h'))))"

text \<open>\<^verbatim>\<open>std::copy(first, last, d_first)\<close>: \<^verbatim>\<open>while (first != last) *d_first++ = *first++;\<close>\<close>

definition std_copy :: "pointer \<Rightarrow> pointer \<Rightarrow> pointer \<Rightarrow> 'a heap \<Rightarrow> error + (pointer \<times> 'a heap)" where
  "std_copy first lst d_first h = and_then (distance first lst) (\<lambda>n. copy_loop n first d_first h)"

text \<open>\<^verbatim>\<open>std::move(first, last, d_first)\<close>: the same loop with a move assignment.\<close>

definition std_move :: "pointer \<Rightarrow> pointer \<Rightarrow> pointer \<Rightarrow> 'a heap \<Rightarrow> error + (pointer \<times> 'a heap)" where
  "std_move first lst d_first h = std_copy first lst d_first h"

fun copy_backward_loop :: "nat \<Rightarrow> pointer \<Rightarrow> pointer \<Rightarrow> 'a heap \<Rightarrow> error + (pointer \<times> 'a heap)" where
  "copy_backward_loop 0 lst d_last h = Inr (d_last, h)"
| "copy_backward_loop (Suc n) lst d_last h =
     and_then (ptr_sub lst 1) (\<lambda>lst'.
     and_then (ptr_sub d_last 1) (\<lambda>d_last'.
     and_then (load h lst') (\<lambda>x.
     and_then (store h d_last' x) (\<lambda>h'.
     copy_backward_loop n lst' d_last' h'))))"

text \<open>\<^verbatim>\<open>std::copy_backward(first, last, d_last)\<close>:
  \<^verbatim>\<open>while (first != last) *(--d_last) = *(--last);\<close> and the result is \<^verbatim>\<open>d_last\<close>.\<close>

definition std_copy_backward :: "pointer \<Rightarrow> pointer \<Rightarrow> pointer \<Rightarrow> 'a heap \<Rightarrow> error + (pointer \<times> 'a heap)" where
  "std_copy_backward first lst d_last h =
     and_then (distance first lst) (\<lambda>n. copy_backward_loop n lst d_last h)"

fun read_loop :: "nat \<Rightarrow> pointer \<Rightarrow> 'a heap \<Rightarrow> error + 'a list" where
  "read_loop 0 first h = Inr []"
| "read_loop (Suc n) first h =
     and_then (load h first) (\<lambda>x.
     and_then (ptr_add first 1) (\<lambda>first'.
     and_then (read_loop n first' h) (\<lambda>xs.
     Inr (x # xs))))"

text \<open>The elements of \<^verbatim>\<open>[first, last)\<close>, as an input algorithm reads them.\<close>

definition read_range :: "pointer \<Rightarrow> pointer \<Rightarrow> 'a heap \<Rightarrow> error + 'a list" where
  "read_range first lst h = and_then (distance first lst) (\<lambda>n. read_loop n first h)"

fun equal_loop :: "'a list \<Rightarrow> 'a list \<Rightarrow> bool" where
  "equal_loop (x # xs) (y # ys) = (if x = y then equal_loop xs ys else False)"
| "equal_loop xs ys = True"

text \<open>\<^verbatim>\<open>std::equal(first1, last1, first2, last2)\<close> on random-access iterators: false when
  the lengths differ, else the element-wise loop.\<close>

definition std_equal :: "pointer \<Rightarrow> pointer \<Rightarrow> pointer \<Rightarrow> pointer \<Rightarrow> 'a heap \<Rightarrow> error + bool" where
  "std_equal first1 last1 first2 last2 h =
     and_then (read_range first1 last1 h) (\<lambda>xs.
     and_then (read_range first2 last2 h) (\<lambda>ys.
     Inr (if length xs \<noteq> length ys then False else equal_loop xs ys)))"

fun lexicographical_loop :: "'a::linorder list \<Rightarrow> 'a list \<Rightarrow> bool" where
  "lexicographical_loop (x # xs) (y # ys) =
     (if x < y then True else if y < x then False else lexicographical_loop xs ys)"
| "lexicographical_loop xs ys = (xs = [] \<and> ys \<noteq> [])"

text \<open>\<^verbatim>\<open>std::lexicographical_compare\<close>: the first position where one element is less
  decides; if one range ends first, the shorter one is less.\<close>

definition std_lexicographical_compare ::
  "pointer \<Rightarrow> pointer \<Rightarrow> pointer \<Rightarrow> pointer \<Rightarrow> ('a::linorder) heap \<Rightarrow> error + bool" where
  "std_lexicographical_compare first1 last1 first2 last2 h =
     and_then (read_range first1 last1 h) (\<lambda>xs.
     and_then (read_range first2 last2 h) (\<lambda>ys.
     Inr (lexicographical_loop xs ys)))"

section \<open>ArrayPtr\<close>

text \<open>
  The repository holds two versions of \<^verbatim>\<open>array_ptr.h\<close>; they differ in the move
  constructor and move assignment of \<^verbatim>\<open>ArrayPtr\<close>, which \<^verbatim>\<open>SimpleVector\<close> never calls, and
  agree on every member modelled here.
\<close>

record ArrayPtr =
  raw_ptr_f :: pointer

text \<open>\<^verbatim>\<open>ArrayPtr() = default\<close>, with the member initialiser \<^verbatim>\<open>raw_ptr_ = nullptr\<close>.\<close>

definition ArrayPtr_default :: ArrayPtr where
  "ArrayPtr_default = \<lparr>raw_ptr_f = Null\<rparr>"

text \<open>\<^verbatim>\<open>explicit ArrayPtr(size_t size)\<close>:
  \<^verbatim>\<open>raw_ptr_ = size == 0 ? nullptr : new Type[size]();\<close>\<close>

definition ArrayPtr_size :: "'a \<Rightarrow> nat \<Rightarrow> 'a heap \<Rightarrow> ArrayPtr \<times> 'a heap" where
  "ArrayPtr_size d sz h =
     (if sz = 0 then (\<lparr>raw_ptr_f = Null\<rparr>, h)
      else (let (p, h') = new_array d sz h in (\<lparr>raw_ptr_f = p\<rparr>, h')))"

text \<open>\<^verbatim>\<open>explicit ArrayPtr(Type* raw_ptr)\<close>\<close>

definition ArrayPtr_raw :: "pointer \<Rightarrow> ArrayPtr" where
  "ArrayPtr_raw raw_ptr = \<lparr>raw_ptr_f = raw_ptr\<rparr>"

text \<open>\<^verbatim>\<open>~ArrayPtr()\<close>: \<^verbatim>\<open>delete[] raw_ptr_;\<close>\<close>

definition ArrayPtr_dtor :: "ArrayPtr \<Rightarrow> 'a heap \<Rightarrow> error + 'a heap" where
  "ArrayPtr_dtor this h = delete_array (raw_ptr_f this) h"

text \<open>\<^verbatim>\<open>Release()\<close>: \<^verbatim>\<open>Type* ptr = raw_ptr_; raw_ptr_ = nullptr; return ptr;\<close>.
  The result is the handle returned, the object and the heap after the call.\<close>

definition Release :: "ArrayPtr \<Rightarrow> 'a heap \<Rightarrow> pointer \<times> ArrayPtr \<times> 'a heap" where
  "Release this h = (let ptr = raw_ptr_f this in (ptr, this\<lparr>raw_ptr_f := Null\<rparr>, h))"

text \<open>\<^verbatim>\<open>operator[]\<close> returns the reference \<^verbatim>\<open>raw_ptr_[index]\<close>, that is \<^verbatim>\<open>*(raw_ptr_ + index)\<close>;
  the model returns the pointer, and \<open>load\<close> and \<open>store\<close> go through it.\<close>

definition ArrayPtr_subscript :: "ArrayPtr \<Rightarrow> nat \<Rightarrow> error + pointer" where
  "ArrayPtr_subscript this index = ptr_add (raw_ptr_f this) index"

definition ArrayPtr_bool :: "ArrayPtr \<Rightarrow> bool" where
  "ArrayPtr_bool this = (raw_ptr_f this \<noteq> Null)"

definition Get :: "ArrayPtr \<Rightarrow> pointer" where
  "Get this = raw_ptr_f this"

text \<open>\<^verbatim>\<open>swap(ArrayPtr& other)\<close>: the pair is \<^verbatim>\<open>*this\<close> and \<^verbatim>\<open>other\<close> after the call.\<close>

definition ArrayPtr_swap :: "ArrayPtr \<Rightarrow> ArrayPtr \<Rightarrow> ArrayPtr \<times> ArrayPtr" where
  "ArrayPtr_swap this other =
     (this\<lparr>raw_ptr_f := raw_ptr_f other\<rparr>, other\<lparr>raw_ptr_f := raw_ptr_f this\<rparr>)"


section \<open>SimpleVector\<close>

text \<open>
  Names: the members \<^verbatim>\<open>raw_ptr_\<close>, \<^verbatim>\<open>ptr_\<close>, \<^verbatim>\<open>size_\<close> and \<^verbatim>\<open>capacity_\<close> are the fields
  \<open>raw_ptr_f\<close>, \<open>ptr_f\<close>, \<open>size_f\<close> and \<open>capacity_f\<close>; \<^verbatim>\<open>begin()\<close> and \<^verbatim>\<open>end()\<close> are
  \<open>begin_it\<close> and \<open>end_it\<close>; \<^verbatim>\<open>operator[]\<close> is \<open>subscript\<close>; a constructor is named after its
  class and its argument. The parameter \<open>d\<close> of a function is the value of \<^verbatim>\<open>Type()\<close>,
  which \<^verbatim>\<open>new Type[n]()\<close> gives every element.
\<close>

record SimpleVector =
  ptr_f :: ArrayPtr
  size_f :: nat
  capacity_f :: nat

text \<open>A method that changes the object takes the heap and the object and returns both.\<close>

type_synonym 'a vstate = "'a heap \<times> SimpleVector"

text \<open>\<^verbatim>\<open>SimpleVector() noexcept = default\<close>, with the member initialisers.\<close>

definition SimpleVector_default :: SimpleVector where
  "SimpleVector_default = \<lparr>ptr_f = ArrayPtr_default, size_f = 0, capacity_f = 0\<rparr>"

definition GetSize :: "SimpleVector \<Rightarrow> nat" where
  "GetSize this = size_f this"

definition GetCapacity :: "SimpleVector \<Rightarrow> nat" where
  "GetCapacity this = capacity_f this"

definition IsEmpty :: "SimpleVector \<Rightarrow> bool" where
  "IsEmpty this = (size_f this = 0)"

text \<open>\<^verbatim>\<open>begin()\<close> and \<^verbatim>\<open>end()\<close>\<close>

definition begin_it :: "SimpleVector \<Rightarrow> pointer" where
  "begin_it this = Get (ptr_f this)"

definition end_it :: "SimpleVector \<Rightarrow> error + pointer" where
  "end_it this =
     (if Get (ptr_f this) = Null then Inr Null else ptr_add (Get (ptr_f this)) (size_f this))"

text \<open>\<^verbatim>\<open>~SimpleVector()\<close> is implicit: it destroys the member \<^verbatim>\<open>ptr_\<close>.\<close>

definition SimpleVector_dtor :: "SimpleVector \<Rightarrow> 'a heap \<Rightarrow> error + 'a heap" where
  "SimpleVector_dtor this h = ArrayPtr_dtor (ptr_f this) h"

text \<open>\<^verbatim>\<open>Reserve(size_t new_capacity)\<close>:
  \<^verbatim>\<open>if (new_capacity > capacity_) { ArrayPtr<Type> copy(new_capacity);
  std::move(begin(), end(), copy.Get()); ptr_.swap(copy); capacity_ = new_capacity; }\<close>.
  The local \<^verbatim>\<open>copy\<close>, which then holds the old array, is destroyed when the block ends.\<close>

definition Reserve :: "'a \<Rightarrow> nat \<Rightarrow> 'a vstate \<Rightarrow> error + 'a vstate" where
  "Reserve d new_capacity = (\<lambda>(h, this).
     if new_capacity > capacity_f this then
       (let (copy, h1) = ArrayPtr_size d new_capacity h in
        and_then (end_it this) (\<lambda>e.
        and_then (std_move (begin_it this) e (Get copy) h1) (\<lambda>(r, h2).
        let (p, copy') = ArrayPtr_swap (ptr_f this) copy;
            this1 = this\<lparr>ptr_f := p\<rparr>;
            this2 = this1\<lparr>capacity_f := new_capacity\<rparr>
        in and_then (ArrayPtr_dtor copy' h2) (\<lambda>h3. Inr (h3, this2)))))
     else Inr (h, this))"

text \<open>\<^verbatim>\<open>SimpleVector(ReserveProxyObj rpo)\<close>\<close>

definition SimpleVector_reserve :: "'a \<Rightarrow> nat \<Rightarrow> 'a heap \<Rightarrow> error + 'a vstate" where
  "SimpleVector_reserve d rpo_capacity h = Reserve d rpo_capacity (h, SimpleVector_default)"

text \<open>\<^verbatim>\<open>explicit SimpleVector(size_t size)\<close>:
  \<^verbatim>\<open>ArrayPtr<Type> tmp(size); ptr_.swap(tmp); size_ = size; capacity_ = size;\<close>\<close>

definition SimpleVector_size :: "'a \<Rightarrow> nat \<Rightarrow> 'a heap \<Rightarrow> error + 'a vstate" where
  "SimpleVector_size d sz h =
     (let this = SimpleVector_default;
          (tmp, h1) = ArrayPtr_size d sz h;
          (p, tmp') = ArrayPtr_swap (ptr_f this) tmp;
          this1 = this\<lparr>ptr_f := p\<rparr>;
          this2 = this1\<lparr>size_f := sz\<rparr>;
          this3 = this2\<lparr>capacity_f := sz\<rparr>
      in and_then (ArrayPtr_dtor tmp' h1) (\<lambda>h2. Inr (h2, this3)))"

text \<open>\<^verbatim>\<open>SimpleVector(const SimpleVector& sv)\<close>:
  \<^verbatim>\<open>ArrayPtr<Type> tmp(sv.size_); ptr_.swap(tmp); std::copy(sv.begin(), sv.end(), ptr_.Get());
  size_ = sv.size_; capacity_ = sv.size_;\<close>\<close>

definition SimpleVector_copy :: "'a \<Rightarrow> SimpleVector \<Rightarrow> 'a heap \<Rightarrow> error + 'a vstate" where
  "SimpleVector_copy d sv h =
     (let this = SimpleVector_default;
          (tmp, h1) = ArrayPtr_size d (size_f sv) h;
          (p, tmp') = ArrayPtr_swap (ptr_f this) tmp;
          this1 = this\<lparr>ptr_f := p\<rparr>
      in and_then (end_it sv) (\<lambda>e.
         and_then (std_copy (begin_it sv) e (Get (ptr_f this1)) h1) (\<lambda>(r, h2).
         let this2 = this1\<lparr>size_f := size_f sv\<rparr>;
             this3 = this2\<lparr>capacity_f := size_f sv\<rparr>
         in and_then (ArrayPtr_dtor tmp' h2) (\<lambda>h3. Inr (h3, this3)))))"

text \<open>The loop of \<^verbatim>\<open>SimpleVector(size_t size, const Type& value)\<close>. The constructor
  frees nothing and writes only the array it has just allocated, which no reference made
  before the call refers to: \<^verbatim>\<open>value\<close> reads the same at every iteration, and the loop
  takes what it reads as \<open>v\<close>.\<close>

function fill_loop :: "nat \<Rightarrow> nat \<Rightarrow> 'a \<Rightarrow> ArrayPtr \<Rightarrow> 'a heap \<Rightarrow> error + 'a heap" where
  "fill_loop i sz v p h =
     (if i < sz then
        and_then (ArrayPtr_subscript p i) (\<lambda>r.
        and_then (store h r v) (\<lambda>h'.
        fill_loop (i + 1) sz v p h'))
      else Inr h)"
  by pat_completeness auto
termination
  by (relation "measure (\<lambda>(i, sz, v, p, h). sz - i)") auto

definition SimpleVector_fill :: "'a \<Rightarrow> nat \<Rightarrow> 'a \<Rightarrow> 'a heap \<Rightarrow> error + 'a vstate" where
  "SimpleVector_fill d sz v h =
     (let this = SimpleVector_default;
          (tmp, h1) = ArrayPtr_size d sz h;
          (p, tmp') = ArrayPtr_swap (ptr_f this) tmp;
          this1 = this\<lparr>ptr_f := p\<rparr>
      in and_then (fill_loop 0 sz v (ptr_f this1) h1) (\<lambda>h2.
         let this2 = this1\<lparr>size_f := sz\<rparr>;
             this3 = this2\<lparr>capacity_f := sz\<rparr>
         in and_then (ArrayPtr_dtor tmp' h2) (\<lambda>h3. Inr (h3, this3))))"

text \<open>The loop of \<^verbatim>\<open>SimpleVector(std::initializer_list<Type> init)\<close>.\<close>

fun init_loop :: "nat \<Rightarrow> 'a list \<Rightarrow> ArrayPtr \<Rightarrow> 'a heap \<Rightarrow> error + 'a heap" where
  "init_loop i [] p h = Inr h"
| "init_loop i (v # init) p h =
     and_then (ArrayPtr_subscript p i) (\<lambda>r.
     and_then (store h r v) (\<lambda>h'.
     init_loop (i + 1) init p h'))"

definition SimpleVector_init :: "'a \<Rightarrow> 'a list \<Rightarrow> 'a heap \<Rightarrow> error + 'a vstate" where
  "SimpleVector_init d init h =
     (let this = SimpleVector_default;
          (tmp, h1) = ArrayPtr_size d (length init) h;
          (p, tmp') = ArrayPtr_swap (ptr_f this) tmp;
          this1 = this\<lparr>ptr_f := p\<rparr>
      in and_then (init_loop 0 init (ptr_f this1) h1) (\<lambda>h2.
         let this2 = this1\<lparr>size_f := length init\<rparr>;
             this3 = this2\<lparr>capacity_f := length init\<rparr>
         in and_then (ArrayPtr_dtor tmp' h2) (\<lambda>h3. Inr (h3, this3))))"

text \<open>\<^verbatim>\<open>PushBack(const Type& v)\<close>:
  \<^verbatim>\<open>if (size_ == capacity_) { Reserve((capacity_ == 0) ? 1 : (capacity_ * 2)); }
  ptr_[size_++] = v;\<close>.
  The reference \<open>v\<close> is read by the assignment, in the heap \<^verbatim>\<open>Reserve\<close> has left: when
  \<open>v\<close> refers to an element of the vector and the vector was full, the array it refers
  to has been freed. The overload for \<^verbatim>\<open>Type&&\<close> has the same body with a move
  assignment, so it reads \<open>v\<close> at the same place.\<close>

definition PushBack :: "'a \<Rightarrow> 'a cref \<Rightarrow> 'a vstate \<Rightarrow> error + 'a vstate" where
  "PushBack d v = (\<lambda>(h, this).
     and_then (if size_f this = capacity_f this
               then Reserve d (if capacity_f this = 0 then 1 else capacity_f this * 2) (h, this)
               else Inr (h, this)) (\<lambda>(h1, this1).
     and_then (ArrayPtr_subscript (ptr_f this1) (size_f this1)) (\<lambda>r.
     let this2 = this1\<lparr>size_f := size_f this1 + 1\<rparr> in
     and_then (read_ref h1 v) (\<lambda>x.
     and_then (store h1 r x) (\<lambda>h2. Inr (h2, this2))))))"

text \<open>The loop of \<^verbatim>\<open>Resize\<close>: \<^verbatim>\<open>for (it = end(); it != ptr_.Get() + new_size; it++)\<close>
  assigns \<^verbatim>\<open>Type()\<close> to \<^verbatim>\<open>*it\<close>. It stops when \<open>it\<close> meets the bound, or with undefined
  behaviour when \<open>it\<close> leaves its array.\<close>

function Resize_loop :: "'a \<Rightarrow> pointer \<Rightarrow> pointer \<Rightarrow> 'a heap \<Rightarrow> error + 'a heap" where
  "Resize_loop d it bound h =
     (if it \<noteq> bound then
        (case store h it d of
           Inl e \<Rightarrow> Inl e
         | Inr h' \<Rightarrow> (case ptr_add it 1 of
               Inl e \<Rightarrow> Inl e
             | Inr it' \<Rightarrow> Resize_loop d it' bound h'))
      else Inr h)"
  by pat_completeness auto

termination
proof (relation "measure (\<lambda>(d, it, bound, h). case it of Null \<Rightarrow> 0
         | Ptr a i \<Rightarrow> (case block h a of None \<Rightarrow> 0 | Some xs \<Rightarrow> Suc (length xs) - i))")
  show "wf (measure (\<lambda>(d, it, bound, h). case it of Null \<Rightarrow> 0
         | Ptr a i \<Rightarrow> (case block (h::'a heap) a of None \<Rightarrow> 0 | Some xs \<Rightarrow> Suc (length xs) - i)))"
    by simp
next
  fix d :: 'a and it bound :: pointer and h h' :: "'a heap" and it'
  assume "it \<noteq> bound" and s: "store h it d = Inr h'" and p: "ptr_add it 1 = Inr it'"
  from s obtain a i xs where it: "it = Ptr a i" and b: "block h a = Some xs" and i: "i < length xs"
    and h': "h' = h[a := Some (xs[i := d])]"
    by (auto simp: store_def split: pointer.splits option.splits if_splits)
  from b have "a < length h" by (auto simp: block_def split: if_splits)
  then have "block h' a = Some (xs[i := d])" by (simp add: h' block_def)
  moreover from p it have "it' = Ptr a (i + 1)" by (simp add: ptr_add_def)
  ultimately show "((d, it', bound, h'), (d, it, bound, h)) \<in> measure (\<lambda>(d, it, bound, h). case it of Null \<Rightarrow> 0
         | Ptr a i \<Rightarrow> (case block h a of None \<Rightarrow> 0 | Some xs \<Rightarrow> Suc (length xs) - i))"
    using it b i by simp
qed

text \<open>\<^verbatim>\<open>Resize(size_t new_size)\<close>:
  \<^verbatim>\<open>if (new_size > capacity_) { Reserve(new_size); }
  if (new_size > size_) { for (...) {...} } size_ = new_size;\<close>\<close>

definition Resize :: "'a \<Rightarrow> nat \<Rightarrow> 'a vstate \<Rightarrow> error + 'a vstate" where
  "Resize d new_size = (\<lambda>(h, this).
     and_then (if new_size > capacity_f this then Reserve d new_size (h, this)
               else Inr (h, this)) (\<lambda>(h1, this1).
     and_then (if new_size > size_f this1 then
                 and_then (end_it this1) (\<lambda>it.
                 and_then (ptr_add (Get (ptr_f this1)) new_size) (\<lambda>bound.
                 Resize_loop d it bound h1))
               else Inr h1) (\<lambda>h2.
     Inr (h2, this1\<lparr>size_f := new_size\<rparr>))))"

text \<open>\<^verbatim>\<open>PopBack()\<close>: \<^verbatim>\<open>assert(size_ != 0); Resize(size_ - 1);\<close>\<close>

definition PopBack :: "'a \<Rightarrow> 'a vstate \<Rightarrow> error + 'a vstate" where
  "PopBack d = (\<lambda>(h, this).
     and_then (assert (size_f this \<noteq> 0)) (\<lambda>_.
     Resize d (size_f this - 1) (h, this)))"

text \<open>\<^verbatim>\<open>Insert(ConstIterator pos, const Type& v)\<close>:
  \<^verbatim>\<open>assert(pos >= begin() && pos <= end()); size_t pos_i = pos - begin();
  if (size_ == capacity_) { Reserve((capacity_ == 0) ? 1 : (capacity_ * 2)); }
  size_++; Iterator it = std::copy_backward(begin() + pos_i, end() - 1, end()) - 1;
  *(it) = v; return it;\<close>.
  The result is the iterator returned and the state after the call. The reference \<open>v\<close>
  is read by the last assignment, after \<^verbatim>\<open>Reserve\<close> and after \<^verbatim>\<open>std::copy_backward\<close> has
  shifted the elements. The overload for \<^verbatim>\<open>Type&&\<close> has the same body with
  \<^verbatim>\<open>std::move_backward\<close> and a move assignment, so it reads \<open>v\<close> at the same place.\<close>

definition Insert :: "'a \<Rightarrow> pointer \<Rightarrow> 'a cref \<Rightarrow> 'a vstate \<Rightarrow> error + (pointer \<times> 'a vstate)" where
  "Insert d pos v = (\<lambda>(h, this).
     and_then (end_it this) (\<lambda>e.
     and_then (assert (ptr_le (begin_it this) pos \<and> ptr_le pos e)) (\<lambda>_.
     and_then (distance (begin_it this) pos) (\<lambda>pos_i.
     and_then (if size_f this = capacity_f this
               then Reserve d (if capacity_f this = 0 then 1 else capacity_f this * 2) (h, this)
               else Inr (h, this)) (\<lambda>(h1, this1).
     let this2 = this1\<lparr>size_f := size_f this1 + 1\<rparr> in
     and_then (ptr_add (begin_it this2) pos_i) (\<lambda>first.
     and_then (end_it this2) (\<lambda>e2.
     and_then (ptr_sub e2 1) (\<lambda>lst.
     and_then (std_copy_backward first lst e2 h1) (\<lambda>(r, h2).
     and_then (ptr_sub r 1) (\<lambda>it.
     and_then (read_ref h2 v) (\<lambda>x.
     and_then (store h2 it x) (\<lambda>h3.
     Inr (it, (h3, this2))))))))))))))"

text \<open>\<^verbatim>\<open>Erase(ConstIterator pos)\<close>:
  \<^verbatim>\<open>assert(pos >= begin() && pos <= end()); std::move(pos + 1, end(), pos);
  size_--; return pos;\<close>. The assertion admits \<^verbatim>\<open>pos == end()\<close>; the range
  \<^verbatim>\<open>[pos + 1, end())\<close> is then not valid, so \<^verbatim>\<open>size_--\<close> is reached with
  \<^verbatim>\<open>size_ > 0\<close> only.\<close>

definition Erase :: "pointer \<Rightarrow> 'a vstate \<Rightarrow> error + (pointer \<times> 'a vstate)" where
  "Erase pos = (\<lambda>(h, this).
     and_then (end_it this) (\<lambda>e.
     and_then (assert (ptr_le (begin_it this) pos \<and> ptr_le pos e)) (\<lambda>_.
     and_then (ptr_add pos 1) (\<lambda>first.
     and_then (std_move first e pos h) (\<lambda>(r, h1).
     Inr (pos, (h1, this\<lparr>size_f := size_f this - 1\<rparr>)))))))"

text \<open>\<^verbatim>\<open>operator[](size_t index)\<close>: \<^verbatim>\<open>assert(index < size_); return ptr_[index];\<close>.
  The result is the reference returned.\<close>

definition subscript :: "nat \<Rightarrow> SimpleVector \<Rightarrow> error + pointer" where
  "subscript index this =
     and_then (assert (index < size_f this)) (\<lambda>_. ArrayPtr_subscript (ptr_f this) index)"

text \<open>\<^verbatim>\<open>At(size_t index)\<close>:
  \<^verbatim>\<open>if (index >= size_) { throw std::out_of_range("Index >= size"); } return ptr_[index];\<close>.
  The result is the reference returned or the exception thrown, and the state the call
  leaves.\<close>

definition At :: "nat \<Rightarrow> 'a vstate \<Rightarrow> (error + pointer) \<times> 'a vstate" where
  "At index = (\<lambda>(h, this).
     (if index \<ge> size_f this then Inl OutOfRange
      else ArrayPtr_subscript (ptr_f this) index, (h, this)))"

text \<open>\<^verbatim>\<open>Clear()\<close>: \<^verbatim>\<open>size_ = 0;\<close>\<close>

definition Clear :: "'a vstate \<Rightarrow> 'a vstate" where
  "Clear = (\<lambda>(h, this). (h, this\<lparr>size_f := 0\<rparr>))"

subsection \<open>Operations on two objects\<close>

text \<open>
  Copy assignment, move and swap take a second \<^verbatim>\<open>SimpleVector\<close> by reference, which may
  be the object itself. The objects live in a store, a function from object identities to
  their fields, and every statement reads and writes the store, so that \<open>this = rhs\<close>
  behaves as in the program.
\<close>

type_synonym objects = "nat \<Rightarrow> SimpleVector"

text \<open>\<^verbatim>\<open>operator=(const SimpleVector& rhs)\<close>:
  \<^verbatim>\<open>ArrayPtr<Type> tmp(rhs.size_); std::copy(rhs.begin(), rhs.end(), tmp.Get());
  ptr_.swap(tmp); size_ = rhs.size_; capacity_ = rhs.size_;\<close>.
  The local \<^verbatim>\<open>tmp\<close>, which then holds the old array of \<^verbatim>\<open>*this\<close>, is destroyed on return.\<close>

definition copy_assign :: "'a \<Rightarrow> nat \<Rightarrow> nat \<Rightarrow> 'a heap \<times> objects \<Rightarrow> error + ('a heap \<times> objects)" where
  "copy_assign d this rhs = (\<lambda>(h, objs).
     let (tmp, h1) = ArrayPtr_size d (size_f (objs rhs)) h in
     and_then (end_it (objs rhs)) (\<lambda>e.
     and_then (std_copy (begin_it (objs rhs)) e (Get tmp) h1) (\<lambda>(r, h2).
     let (p, tmp') = ArrayPtr_swap (ptr_f (objs this)) tmp;
         objs1 = objs(this := (objs this)\<lparr>ptr_f := p\<rparr>);
         objs2 = objs1(this := (objs1 this)\<lparr>size_f := size_f (objs1 rhs)\<rparr>);
         objs3 = objs2(this := (objs2 this)\<lparr>capacity_f := size_f (objs2 rhs)\<rparr>)
     in and_then (ArrayPtr_dtor tmp' h2) (\<lambda>h3. Inr (h3, objs3)))))"

text \<open>The body the move constructor and the move assignment share:
  \<^verbatim>\<open>ptr_.swap(rhs.ptr_); size_ = std::exchange(rhs.size_, 0);
  capacity_ = std::exchange(rhs.size_, 0);\<close>\<close>

definition move_body :: "nat \<Rightarrow> nat \<Rightarrow> objects \<Rightarrow> objects" where
  "move_body this rhs objs =
     (let (p, q) = ArrayPtr_swap (ptr_f (objs this)) (ptr_f (objs rhs));
          objs1 = objs(this := (objs this)\<lparr>ptr_f := p\<rparr>);
          objs2 = objs1(rhs := (objs1 rhs)\<lparr>ptr_f := q\<rparr>);
          old_size = size_f (objs2 rhs);
          objs3 = objs2(rhs := (objs2 rhs)\<lparr>size_f := 0\<rparr>);
          objs4 = objs3(this := (objs3 this)\<lparr>size_f := old_size\<rparr>);
          old_size2 = size_f (objs4 rhs);
          objs5 = objs4(rhs := (objs4 rhs)\<lparr>size_f := 0\<rparr>);
          objs6 = objs5(this := (objs5 this)\<lparr>capacity_f := old_size2\<rparr>)
      in objs6)"

text \<open>\<^verbatim>\<open>SimpleVector(SimpleVector&& sv)\<close> constructs the new object \<open>this\<close>.\<close>

definition SimpleVector_move :: "nat \<Rightarrow> nat \<Rightarrow> objects \<Rightarrow> objects" where
  "SimpleVector_move this sv objs = move_body this sv (objs(this := SimpleVector_default))"

text \<open>\<^verbatim>\<open>operator=(SimpleVector&& rhs)\<close>\<close>

definition move_assign :: "nat \<Rightarrow> nat \<Rightarrow> objects \<Rightarrow> objects" where
  "move_assign this rhs objs = move_body this rhs objs"

text \<open>\<^verbatim>\<open>swap(SimpleVector& sv)\<close>:
  \<^verbatim>\<open>ptr_.swap(sv.ptr_); std::swap(size_, sv.size_); std::swap(capacity_, sv.capacity_);\<close>\<close>

definition swap :: "nat \<Rightarrow> nat \<Rightarrow> objects \<Rightarrow> objects" where
  "swap this sv objs =
     (let (p, q) = ArrayPtr_swap (ptr_f (objs this)) (ptr_f (objs sv));
          objs1 = objs(this := (objs this)\<lparr>ptr_f := p\<rparr>);
          objs2 = objs1(sv := (objs1 sv)\<lparr>ptr_f := q\<rparr>);
          a = size_f (objs2 this); b = size_f (objs2 sv);
          objs3 = objs2(this := (objs2 this)\<lparr>size_f := b\<rparr>);
          objs4 = objs3(sv := (objs3 sv)\<lparr>size_f := a\<rparr>);
          a = capacity_f (objs4 this); b = capacity_f (objs4 sv);
          objs5 = objs4(this := (objs4 this)\<lparr>capacity_f := b\<rparr>);
          objs6 = objs5(sv := (objs5 sv)\<lparr>capacity_f := a\<rparr>)
      in objs6)"

subsection \<open>Comparison operators\<close>

text \<open>
  \<^verbatim>\<open>operator==\<close>: \<^verbatim>\<open>return (&lhs == &rhs) || (lhs.GetSize() == rhs.GetSize() &&
  std::equal(lhs.begin(), lhs.end(), rhs.begin(), rhs.end()));\<close>.
  The parameter \<open>same\<close> is the value of \<^verbatim>\<open>&lhs == &rhs\<close>. \<^verbatim>\<open>||\<close> and \<^verbatim>\<open>&&\<close> evaluate
  their right operand only when needed.
\<close>

definition op_eq :: "bool \<Rightarrow> SimpleVector \<Rightarrow> SimpleVector \<Rightarrow> 'a heap \<Rightarrow> error + bool" where
  "op_eq same lhs rhs h =
     (if same then Inr True
      else if GetSize lhs = GetSize rhs then
        and_then (end_it lhs) (\<lambda>e1.
        and_then (end_it rhs) (\<lambda>e2.
        std_equal (begin_it lhs) e1 (begin_it rhs) e2 h))
      else Inr False)"

text \<open>\<^verbatim>\<open>operator!=\<close> takes \<^verbatim>\<open>rhs\<close> by value: the argument is copy-constructed, compared
  (it is never the object \<^verbatim>\<open>lhs\<close>), and destroyed.\<close>

definition op_ne :: "'a \<Rightarrow> SimpleVector \<Rightarrow> SimpleVector \<Rightarrow> 'a heap \<Rightarrow> error + (bool \<times> 'a heap)" where
  "op_ne d lhs rhs_arg h =
     and_then (SimpleVector_copy d rhs_arg h) (\<lambda>(h1, rhs).
     and_then (op_eq False lhs rhs h1) (\<lambda>b.
     and_then (SimpleVector_dtor rhs h1) (\<lambda>h2.
     Inr (\<not> b, h2))))"

text \<open>\<^verbatim>\<open>operator<\<close> is \<^verbatim>\<open>std::lexicographical_compare\<close> on the two ranges; \<^verbatim>\<open>lhs <= rhs\<close> is
  \<^verbatim>\<open>!(rhs < lhs)\<close>, \<^verbatim>\<open>lhs > rhs\<close> is \<^verbatim>\<open>!(lhs <= rhs)\<close>, \<^verbatim>\<open>lhs >= rhs\<close> is \<^verbatim>\<open>!(lhs < rhs)\<close>.\<close>

definition op_lt :: "SimpleVector \<Rightarrow> SimpleVector \<Rightarrow> ('a::linorder) heap \<Rightarrow> error + bool" where
  "op_lt lhs rhs h =
     and_then (end_it lhs) (\<lambda>e1.
     and_then (end_it rhs) (\<lambda>e2.
     std_lexicographical_compare (begin_it lhs) e1 (begin_it rhs) e2 h))"

definition op_le :: "SimpleVector \<Rightarrow> SimpleVector \<Rightarrow> ('a::linorder) heap \<Rightarrow> error + bool" where
  "op_le lhs rhs h = and_then (op_lt rhs lhs h) (\<lambda>b. Inr (\<not> b))"

definition op_gt :: "SimpleVector \<Rightarrow> SimpleVector \<Rightarrow> ('a::linorder) heap \<Rightarrow> error + bool" where
  "op_gt lhs rhs h = and_then (op_le lhs rhs h) (\<lambda>b. Inr (\<not> b))"

definition op_ge :: "SimpleVector \<Rightarrow> SimpleVector \<Rightarrow> ('a::linorder) heap \<Rightarrow> error + bool" where
  "op_ge lhs rhs h = and_then (op_lt lhs rhs h) (\<lambda>b. Inr (\<not> b))"

section \<open>The logical sequence and the invariant\<close>

text \<open>The elements a client sees: the range \<^verbatim>\<open>[begin(), end())\<close>.\<close>

definition elements :: "'a vstate \<Rightarrow> error + 'a list" where
  "elements = (\<lambda>(h, this). and_then (end_it this) (\<lambda>e. read_range (begin_it this) e h))"


text \<open>The invariant of the data model: \<^verbatim>\<open>0 <= size <= capacity\<close>.\<close>

definition invariant :: "SimpleVector \<Rightarrow> bool" where
  "invariant this = (0 \<le> size_f this \<and> size_f this \<le> capacity_f this)"

text \<open>
  The representation a constructor establishes: the invariant, and \<^verbatim>\<open>ptr_\<close> is null with
  capacity 0 or owns a live array of exactly \<^verbatim>\<open>capacity_\<close> elements.
\<close>

definition well_formed :: "'a vstate \<Rightarrow> bool" where
  "well_formed = (\<lambda>(h, this). invariant this \<and>
     (case raw_ptr_f (ptr_f this) of
        Null \<Rightarrow> capacity_f this = 0
      | Ptr a i \<Rightarrow> i = 0 \<and>
          (case block h a of None \<Rightarrow> False | Some xs \<Rightarrow> length xs = capacity_f this)))"

text \<open>
  The reference \<open>v\<close> refers into the array the vector owns: it is \<^verbatim>\<open>ptr_[j]\<close> for some
  \<open>j\<close>, an element of the vector when \<open>j < size\<close>.
\<close>

definition refers_into :: "SimpleVector \<Rightarrow> 'a cref \<Rightarrow> bool" where
  "refers_into this v = (case v of
       Object x \<Rightarrow> False
     | Element p \<Rightarrow> (case (p, raw_ptr_f (ptr_f this)) of
           (Ptr c j, Ptr a i) \<Rightarrow> c = a
         | _ \<Rightarrow> False))"

text \<open>A sequence of \<^verbatim>\<open>PushBack\<close> calls, one for each argument of the list.\<close>

fun PushBack_seq :: "'a \<Rightarrow> 'a cref list \<Rightarrow> 'a vstate \<Rightarrow> error + 'a vstate" where
  "PushBack_seq d [] st = Inr st"
| "PushBack_seq d (v # vs) st = and_then (PushBack d v st) (PushBack_seq d vs)"

text \<open>The capacities the growth policy reaches from the empty vector: 0 while nothing
  has been pushed, afterwards a power of two that is not less than the size and less than
  twice the size.\<close>

definition doubling :: "SimpleVector \<Rightarrow> bool" where
  "doubling this = (if size_f this = 0 then capacity_f this = 0
     else (\<exists>m. capacity_f this = 2 ^ m) \<and> size_f this \<le> capacity_f this
          \<and> capacity_f this < 2 * size_f this)"

text \<open>
  The vectors a program can build without moving: a constructor, then any operations
  that return. The two-object operations take their second operand from the same heap.
\<close>

inductive reachable :: "'a \<Rightarrow> 'a vstate \<Rightarrow> bool" for d :: 'a where
  r_default: "reachable d (h, SimpleVector_default)"
| r_reserve: "SimpleVector_reserve d n h = Inr st \<Longrightarrow> reachable d st"
| r_size: "SimpleVector_size d n h = Inr st \<Longrightarrow> reachable d st"
| r_fill: "SimpleVector_fill d n v h = Inr st \<Longrightarrow> reachable d st"
| r_init: "SimpleVector_init d vs h = Inr st \<Longrightarrow> reachable d st"
| r_copy: "reachable d (h, sv) \<Longrightarrow> SimpleVector_copy d sv h = Inr st \<Longrightarrow> reachable d st"
| r_copy_assign: "reachable d (h, objs this) \<Longrightarrow> reachable d (h, objs rhs)
    \<Longrightarrow> copy_assign d this rhs (h, objs) = Inr (h', objs') \<Longrightarrow> reachable d (h', objs' this)"
| r_swap: "reachable d (h, objs sv) \<Longrightarrow> reachable d (h, swap this sv objs this)"
| r_PushBack: "reachable d st \<Longrightarrow> PushBack d v st = Inr st' \<Longrightarrow> reachable d st'"
| r_PopBack: "reachable d st \<Longrightarrow> PopBack d st = Inr st' \<Longrightarrow> reachable d st'"
| r_Insert: "reachable d st \<Longrightarrow> Insert d pos v st = Inr (it, st') \<Longrightarrow> reachable d st'"
| r_Erase: "reachable d st \<Longrightarrow> Erase pos st = Inr (it, st') \<Longrightarrow> reachable d st'"
| r_Resize: "reachable d st \<Longrightarrow> Resize d n st = Inr st' \<Longrightarrow> reachable d st'"
| r_Reserve: "reachable d st \<Longrightarrow> Reserve d n st = Inr st' \<Longrightarrow> reachable d st'"
| r_Clear: "reachable d st \<Longrightarrow> reachable d (Clear st)"


section \<open>Basic facts\<close>

lemma and_then_Inr [simp]: "and_then (Inr x) f = f x"
  by (simp add: and_then_def)

lemma and_then_Inl [simp]: "and_then (Inl e) f = Inl e"
  by (simp add: and_then_def)

lemma assert_True [simp]: "assert True = Inr ()"
  by (simp add: assert_def)

lemma assert_False [simp]: "assert False = Inl AssertionFailed"
  by (simp add: assert_def)

text \<open>The equations of the two loops defined with \<^theory_text>\<open>function\<close> are unfolded by hand.\<close>

declare Resize_loop.simps [simp del]

declare fill_loop.simps [simp del]


section \<open>Facts about the heap and the loops\<close>

lemma block_SomeD: "block h a = Some xs \<Longrightarrow> a < length h \<and> h ! a = Some xs"
  by (auto simp: block_def split: if_splits)

lemma block_append_new [simp]: "block (h @ [x]) (length h) = x"
  by (simp add: block_def)

lemma block_append_old: "block h a = Some xs \<Longrightarrow> block (h @ [x]) a = Some xs"
  by (auto simp: block_def nth_append split: if_splits)

lemma block_append_lt: "a < length h \<Longrightarrow> block (h @ [x]) a = block h a"
  by (auto simp: block_def nth_append split: if_splits)

lemma block_update_same: "a < length h \<Longrightarrow> block (h[a := v]) a = v"
  by (simp add: block_def)

lemma block_update_other: "b \<noteq> a \<Longrightarrow> block (h[a := v]) b = block h b"
  by (simp add: block_def)

lemma block_fresh [simp]: "block h (length h) = None"
  by (simp add: block_def)

lemma load_Ptr: "block h a = Some xs \<Longrightarrow> i < length xs \<Longrightarrow> load h (Ptr a i) = Inr (xs ! i)"
  by (simp add: load_def)

lemma store_Ptr:
  "block h a = Some xs \<Longrightarrow> i < length xs \<Longrightarrow> store h (Ptr a i) v = Inr (h[a := Some (xs[i := v])])"
  by (simp add: store_def)

lemma ptr_add_Ptr [simp]: "ptr_add (Ptr a i) n = Inr (Ptr a (i + n))"
  by (simp add: ptr_add_def)

lemma ptr_add_Null [simp]: "ptr_add Null 0 = Inr Null"
  by (simp add: ptr_add_def)

lemma ptr_sub_Ptr: "n \<le> i \<Longrightarrow> ptr_sub (Ptr a i) n = Inr (Ptr a (i - n))"
  by (simp add: ptr_sub_def)

lemma read_ref_Object [simp]: "read_ref h (Object x) = Inr x"
  by (simp add: read_ref_def)

lemma read_ref_Element [simp]: "read_ref h (Element p) = load h p"
  by (simp add: read_ref_def)

lemma refers_into_Object [simp]: "\<not> refers_into this (Object x)"
  by (simp add: refers_into_def)

lemma refers_into_Element:
  "refers_into this (Element (Ptr c j)) \<longleftrightarrow> (\<exists>i. raw_ptr_f (ptr_f this) = Ptr c i)"
  by (auto simp: refers_into_def split: pointer.splits)

lemma not_refers_into:
  "\<not> refers_into this (Element (Ptr c j)) \<Longrightarrow> Ptr c i \<noteq> raw_ptr_f (ptr_f this)"
  by (metis refers_into_Element)

lemma refers_intoE:
  assumes "refers_into this v"
  obtains c j i where "v = Element (Ptr c j)" "raw_ptr_f (ptr_f this) = Ptr c i"
  using assms by (auto simp: refers_into_def split: cref.splits pointer.splits)

lemma load_live: "load h (Ptr c j) = Inr x \<Longrightarrow> c < length h"
  by (auto simp: load_def block_def split: option.splits if_splits)

text \<open>A reference reads the same value as long as the array it refers to is unchanged.\<close>

lemma read_ref_frame:
  assumes "read_ref h v = Inr x"
    and "\<And>c j. v = Element (Ptr c j) \<Longrightarrow> block h' c = block h c"
  shows "read_ref h' v = Inr x"
proof (cases v)
  case (Object y)
  with assms(1) show ?thesis by simp
next
  case (Element p)
  show ?thesis
  proof (cases p)
    case Null
    with Element assms(1) show ?thesis by (simp add: load_def)
  next
    case (Ptr c j)
    with Element assms(2) have "block h' c = block h c" by simp
    with Element Ptr assms(1) show ?thesis by (simp add: load_def)
  qed
qed

lemma heap_update_id: "block h a = Some xs \<Longrightarrow> h[a := Some xs] = h"
  by (metis block_SomeD list_update_id)

lemma read_loop_block:
  "block h a = Some xs \<Longrightarrow> i + n \<le> length xs \<Longrightarrow> read_loop n (Ptr a i) h = Inr (take n (drop i xs))"
proof (induction n arbitrary: i)
  case 0
  then show ?case by simp
next
  case (Suc n)
  from Suc.prems have i: "i < length xs" by simp
  have "read_loop n (Ptr a (i + 1)) h = Inr (take n (drop (i + 1) xs))"
    using Suc.prems by (intro Suc.IH) simp_all
  moreover have "xs ! i # take n (drop (Suc i) xs) = take (Suc n) (drop i xs)"
    using i by (simp add: Cons_nth_drop_Suc [symmetric])
  ultimately show ?case
    using Suc.prems(1) i by (simp add: load_Ptr)
qed

lemma copy_loop_other:
  "block h a = Some xs \<Longrightarrow> block h b = Some ys \<Longrightarrow> a \<noteq> b \<Longrightarrow> i + n \<le> length xs
   \<Longrightarrow> k + n \<le> length ys
   \<Longrightarrow> copy_loop n (Ptr a i) (Ptr b k) h
       = Inr (Ptr b (k + n), h[b := Some (take k ys @ take n (drop i xs) @ drop (k + n) ys)])"
proof (induction n arbitrary: i k ys h)
  case 0
  then show ?case by (simp add: heap_update_id)
next
  case (Suc n)
  let ?ys = "ys[k := xs ! i]" and ?h = "h[b := Some (ys[k := xs ! i])]"
  from Suc.prems have i: "i < length xs" and k: "k < length ys" by simp_all
  have b: "b < length h" using Suc.prems(2) by (simp add: block_SomeD)
  have 1: "block ?h a = Some xs" using Suc.prems by (simp add: block_update_other)
  have 2: "block ?h b = Some ?ys" using b by (simp add: block_update_same)
  have eq: "take (k + 1) ?ys @ take n (drop (i + 1) xs) @ drop (k + 1 + n) ?ys
      = take k ys @ take (Suc n) (drop i xs) @ drop (k + Suc n) ys"
    using i k by (simp add: take_Suc_conv_app_nth Cons_nth_drop_Suc [symmetric])
  have "copy_loop (Suc n) (Ptr a i) (Ptr b k) h = copy_loop n (Ptr a (i + 1)) (Ptr b (k + 1)) ?h"
    using Suc.prems(1,2) i k by (simp add: load_Ptr store_Ptr)
  also have "\<dots> = Inr (Ptr b (k + 1 + n),
      ?h[b := Some (take (k + 1) ?ys @ take n (drop (i + 1) xs) @ drop (k + 1 + n) ?ys)])"
    using Suc.prems by (intro Suc.IH [OF 1 2]) simp_all
  also have "\<dots> = Inr (Ptr b (k + Suc n),
      h[b := Some (take k ys @ take (Suc n) (drop i xs) @ drop (k + Suc n) ys)])"
    unfolding eq by simp
  finally show ?case .
qed

lemma copy_loop_left:
  "block h a = Some xs \<Longrightarrow> k + 1 + n \<le> length xs
   \<Longrightarrow> copy_loop n (Ptr a (k + 1)) (Ptr a k) h
       = Inr (Ptr a (k + n), h[a := Some (take k xs @ take n (drop (k + 1) xs) @ drop (k + n) xs)])"
proof (induction n arbitrary: k xs h)
  case 0
  then show ?case by (simp add: heap_update_id)
next
  case (Suc n)
  let ?xs = "xs[k := xs ! (k + 1)]"
  let ?h = "h[a := Some ?xs]"
  have a: "a < length h" using Suc.prems(1) by (simp add: block_SomeD)
  have 1: "block ?h a = Some ?xs" using a by (simp add: block_update_same)
  have eq: "take (k + 1) ?xs @ take n (drop (k + 1 + 1) ?xs) @ drop (k + 1 + n) ?xs
      = take k xs @ take (Suc n) (drop (k + 1) xs) @ drop (k + Suc n) xs"
    using Suc.prems(2) by (simp add: take_Suc_conv_app_nth Cons_nth_drop_Suc [symmetric])
  have "copy_loop (Suc n) (Ptr a (k + 1)) (Ptr a k) h
      = copy_loop n (Ptr a (k + 1 + 1)) (Ptr a (k + 1)) ?h"
    using Suc.prems by (simp add: load_Ptr store_Ptr)
  also have "\<dots> = Inr (Ptr a (k + 1 + n),
      ?h[a := Some (take (k + 1) ?xs @ take n (drop (k + 1 + 1) ?xs) @ drop (k + 1 + n) ?xs)])"
    using Suc.prems by (intro Suc.IH [OF 1]) simp_all
  also have "\<dots> = Inr (Ptr a (k + Suc n),
      h[a := Some (take k xs @ take (Suc n) (drop (k + 1) xs) @ drop (k + Suc n) xs)])"
    unfolding eq by simp
  finally show ?case .
qed

lemma copy_backward_loop_right:
  "block h a = Some xs \<Longrightarrow> m + n + 1 \<le> length xs
   \<Longrightarrow> copy_backward_loop n (Ptr a (m + n)) (Ptr a (m + n + 1)) h
       = Inr (Ptr a (m + 1),
              h[a := Some (take (m + 1) xs @ take n (drop m xs) @ drop (m + n + 1) xs)])"
proof (induction n arbitrary: xs h)
  case 0
  then show ?case by (simp add: heap_update_id)
next
  case (Suc n)
  let ?xs = "xs[m + n + 1 := xs ! (m + n)]"
  let ?h = "h[a := Some ?xs]"
  have a: "a < length h" using Suc.prems(1) by (simp add: block_SomeD)
  have 1: "block ?h a = Some ?xs" using a by (simp add: block_update_same)
  have t1: "take (m + 1) ?xs = take (m + 1) xs" by simp
  have t2: "take n (drop m ?xs) = take n (drop m xs)"
    by (simp add: drop_update_swap)
  have t3: "drop (m + n + 1) ?xs = xs ! (m + n) # drop (m + Suc n + 1) xs"
    using Suc.prems(2) by (simp add: drop_update_swap Cons_nth_drop_Suc [symmetric])
  have t4: "take (Suc n) (drop m xs) = take n (drop m xs) @ [xs ! (m + n)]"
    using Suc.prems(2) by (simp add: take_Suc_conv_app_nth)
  have "copy_backward_loop (Suc n) (Ptr a (m + Suc n)) (Ptr a (m + Suc n + 1)) h
      = copy_backward_loop n (Ptr a (m + n)) (Ptr a (m + n + 1)) ?h"
    using Suc.prems by (simp add: load_Ptr store_Ptr ptr_sub_Ptr)
  also have "\<dots> = Inr (Ptr a (m + 1),
      ?h[a := Some (take (m + 1) ?xs @ take n (drop m ?xs) @ drop (m + n + 1) ?xs)])"
    using Suc.prems by (intro Suc.IH [OF 1]) simp_all
  also have "\<dots> = Inr (Ptr a (m + 1),
      h[a := Some (take (m + 1) xs @ take (Suc n) (drop m xs) @ drop (m + Suc n + 1) xs)])"
    unfolding t1 t2 t3 t4 by simp
  finally show ?case .
qed

lemma Resize_loop_block:
  "block h a = Some xs \<Longrightarrow> i \<le> j \<Longrightarrow> j \<le> length xs
   \<Longrightarrow> Resize_loop d (Ptr a i) (Ptr a j) h
       = Inr (h[a := Some (take i xs @ replicate (j - i) d @ drop j xs)])"
proof (induction "j - i" arbitrary: i xs h)
  case 0
  then show ?case by (subst Resize_loop.simps) (simp add: heap_update_id)
next
  case (Suc n)
  let ?xs = "xs[i := d]"
  let ?h = "h[a := Some ?xs]"
  from Suc have i: "i < j" "i < length xs" by simp_all
  have a: "a < length h" using Suc.prems(1) by (simp add: block_SomeD)
  have 1: "block ?h a = Some ?xs" using a by (simp add: block_update_same)
  have eq: "take (i + 1) ?xs @ replicate (j - (i + 1)) d @ drop j ?xs
      = take i xs @ replicate (j - i) d @ drop j xs"
  proof -
    have "replicate (j - i) d = d # replicate (j - (i + 1)) d"
      using i by (cases "j - i") auto
    then show ?thesis using i by (simp add: take_Suc_conv_app_nth)
  qed
  have "Resize_loop d (Ptr a i) (Ptr a j) h = Resize_loop d (Ptr a (i + 1)) (Ptr a j) ?h"
    using Suc.prems i by (subst Resize_loop.simps) (simp add: store_Ptr)
  also have "\<dots> = Inr (?h[a := Some (take (i + 1) ?xs @ replicate (j - (i + 1)) d @ drop j ?xs)])"
    using Suc by (intro Suc.hyps(1) [OF _ 1]) simp_all
  also have "\<dots> = Inr (h[a := Some (take i xs @ replicate (j - i) d @ drop j xs)])"
    unfolding eq by simp
  finally show ?case .
qed

lemma init_loop_block:
  "block h a = Some xs \<Longrightarrow> i + length vs \<le> length xs
   \<Longrightarrow> init_loop i vs \<lparr>raw_ptr_f = Ptr a 0\<rparr> h
       = Inr (h[a := Some (take i xs @ vs @ drop (i + length vs) xs)])"
proof (induction vs arbitrary: i xs h)
  case Nil
  then show ?case by (simp add: heap_update_id)
next
  case (Cons v vs)
  let ?xs = "xs[i := v]"
  let ?h = "h[a := Some ?xs]"
  from Cons.prems have i: "i < length xs" by simp
  have a: "a < length h" using Cons.prems(1) by (simp add: block_SomeD)
  have 1: "block ?h a = Some ?xs" using a by (simp add: block_update_same)
  have eq: "take (i + 1) ?xs @ vs @ drop (i + 1 + length vs) ?xs
      = take i xs @ (v # vs) @ drop (i + length (v # vs)) xs"
    using i by (simp add: take_Suc_conv_app_nth)
  have "init_loop i (v # vs) \<lparr>raw_ptr_f = Ptr a 0\<rparr> h = init_loop (i + 1) vs \<lparr>raw_ptr_f = Ptr a 0\<rparr> ?h"
    using Cons.prems i by (simp add: ArrayPtr_subscript_def store_Ptr)
  also have "\<dots> = Inr (?h[a := Some (take (i + 1) ?xs @ vs @ drop (i + 1 + length vs) ?xs)])"
    using Cons.prems by (intro Cons.IH [OF 1]) simp_all
  also have "\<dots> = Inr (h[a := Some (take i xs @ (v # vs) @ drop (i + length (v # vs)) xs)])"
    unfolding eq by simp
  finally show ?case .
qed

lemma fill_loop_block:
  "block h a = Some xs \<Longrightarrow> i \<le> sz \<Longrightarrow> sz \<le> length xs
   \<Longrightarrow> fill_loop i sz v \<lparr>raw_ptr_f = Ptr a 0\<rparr> h
       = Inr (h[a := Some (take i xs @ replicate (sz - i) v @ drop sz xs)])"
proof (induction "sz - i" arbitrary: i xs h)
  case 0
  then show ?case by (subst fill_loop.simps) (simp add: heap_update_id)
next
  case (Suc n)
  let ?xs = "xs[i := v]"
  let ?h = "h[a := Some ?xs]"
  from Suc have i: "i < sz" "i < length xs" by simp_all
  have a: "a < length h" using Suc.prems(1) by (simp add: block_SomeD)
  have 1: "block ?h a = Some ?xs" using a by (simp add: block_update_same)
  have eq: "take (i + 1) ?xs @ replicate (sz - (i + 1)) v @ drop sz ?xs
      = take i xs @ replicate (sz - i) v @ drop sz xs"
  proof -
    have "replicate (sz - i) v = v # replicate (sz - (i + 1)) v"
      using i by (cases "sz - i") auto
    then show ?thesis using i by (simp add: take_Suc_conv_app_nth)
  qed
  have "fill_loop i sz v \<lparr>raw_ptr_f = Ptr a 0\<rparr> h = fill_loop (i + 1) sz v \<lparr>raw_ptr_f = Ptr a 0\<rparr> ?h"
    using Suc.prems i by (subst fill_loop.simps) (simp add: ArrayPtr_subscript_def store_Ptr)
  also have "\<dots> = Inr (?h[a := Some (take (i + 1) ?xs @ replicate (sz - (i + 1)) v @ drop sz ?xs)])"
    using Suc by (intro Suc.hyps(1) [OF _ 1]) simp_all
  also have "\<dots> = Inr (h[a := Some (take i xs @ replicate (sz - i) v @ drop sz xs)])"
    unfolding eq by simp
  finally show ?case .
qed

section \<open>Facts about well-formed vectors\<close>

lemma well_formedE:
  assumes "well_formed (h, this)"
  obtains (null) "raw_ptr_f (ptr_f this) = Null" "capacity_f this = 0" "size_f this = 0"
  | (array) a xs where "raw_ptr_f (ptr_f this) = Ptr a 0" "block h a = Some xs"
      "length xs = capacity_f this" "size_f this \<le> capacity_f this"
  using assms
  by (auto simp: well_formed_def invariant_def split: pointer.splits option.splits)

lemma well_formed_null:
  "raw_ptr_f (ptr_f this) = Null \<Longrightarrow> capacity_f this = 0 \<Longrightarrow> size_f this = 0
   \<Longrightarrow> well_formed (h, this)"
  by (simp add: well_formed_def invariant_def)

lemma well_formed_array:
  "raw_ptr_f (ptr_f this) = Ptr a 0 \<Longrightarrow> block h a = Some xs \<Longrightarrow> length xs = capacity_f this
   \<Longrightarrow> size_f this \<le> capacity_f this \<Longrightarrow> well_formed (h, this)"
  by (simp add: well_formed_def invariant_def)

lemma distance_Ptr: "i \<le> j \<Longrightarrow> distance (Ptr a i) (Ptr a j) = Inr (j - i)"
  by (simp add: distance_def)

lemma distance_Null [simp]: "distance Null Null = Inr 0"
  by (simp add: distance_def)

lemma elements_null: "raw_ptr_f (ptr_f this) = Null \<Longrightarrow> elements (h, this) = Inr []"
  by (simp add: elements_def end_it_def begin_it_def Get_def read_range_def)

lemma elements_array:
  "raw_ptr_f (ptr_f this) = Ptr a 0 \<Longrightarrow> block h a = Some xs \<Longrightarrow> size_f this \<le> length xs
   \<Longrightarrow> elements (h, this) = Inr (take (size_f this) xs)"
  by (simp add: elements_def end_it_def begin_it_def Get_def read_range_def distance_Ptr
      read_loop_block)

lemma well_formed_elements:
  assumes "well_formed (h, this)"
  obtains xs where "elements (h, this) = Inr xs" "length xs = size_f this"
  using assms
proof (cases rule: well_formedE)
  case null
  then show ?thesis using that by (simp add: elements_null)
next
  case (array a xs)
  then show ?thesis using that [of "take (size_f this) xs"] by (simp add: elements_array)
qed

text \<open>A well-formed vector does not depend on the arrays of the heap it does not own.\<close>

lemma well_formed_frame:
  assumes "well_formed (h, this)"
    and "\<And>a. raw_ptr_f (ptr_f this) = Ptr a 0 \<Longrightarrow> block h' a = block h a"
  shows "well_formed (h', this) \<and> elements (h', this) = elements (h, this)"
  using assms(1)
proof (cases rule: well_formedE)
  case null
  then show ?thesis by (simp add: elements_null well_formed_null)
next
  case (array a xs)
  with assms(2) have "block h' a = Some xs" by simp
  with array show ?thesis
    by (simp add: elements_array well_formed_array [of _ a h' xs])
qed

lemma Reserve_small: "new_capacity \<le> capacity_f this \<Longrightarrow> Reserve d new_capacity (h, this) = Inr (h, this)"
  by (simp add: Reserve_def)

lemma Reserve_grow_frees:
  assumes wf: "well_formed (h, this)" and el: "elements (h, this) = Inr xs"
    and n: "capacity_f this < n"
  obtains h' where
    "Reserve d n (h, this) = Inr (h', this\<lparr>ptr_f := \<lparr>raw_ptr_f = Ptr (length h) 0\<rparr>, capacity_f := n\<rparr>)"
    "block h' (length h) = Some (xs @ replicate (n - size_f this) d)"
    "\<And>c. Ptr c 0 \<noteq> raw_ptr_f (ptr_f this) \<Longrightarrow> c \<noteq> length h \<Longrightarrow> block h' c = block h c"
    "\<And>a. raw_ptr_f (ptr_f this) = Ptr a 0 \<Longrightarrow> block h' a = None"
  using wf
proof (cases rule: well_formedE)
  case null
  let ?h = "h @ [Some (replicate n d)]"
  have "Reserve d n (h, this) = Inr (?h, this\<lparr>ptr_f := \<lparr>raw_ptr_f = Ptr (length h) 0\<rparr>, capacity_f := n\<rparr>)"
    using null n
    by (simp add: Reserve_def ArrayPtr_size_def new_array_def end_it_def begin_it_def Get_def
        std_move_def std_copy_def ArrayPtr_swap_def ArrayPtr_dtor_def delete_array_def)
  moreover have "xs = []" using el null by (simp add: elements_null)
  then have "block ?h (length h) = Some (xs @ replicate (n - size_f this) d)"
    using null by simp
  moreover have "\<And>c. c \<noteq> length h \<Longrightarrow> block ?h c = block h c"
    by (auto simp: block_def nth_append)
  moreover have "\<And>a. raw_ptr_f (ptr_f this) = Ptr a 0 \<Longrightarrow> block ?h a = None"
    using null by simp
  ultimately show ?thesis using that by blast
next
  case (array a arr)
  let ?b = "length h"
  let ?new = "take (size_f this) arr @ replicate (n - size_f this) d"
  let ?h1 = "h @ [Some (replicate n d)]"
  let ?h2 = "?h1[?b := Some ?new]"
  let ?h3 = "?h2[a := None]"
  have a: "a < length h" using array(2) by (simp add: block_SomeD)
  have b1: "block ?h1 a = Some arr" using array(2) by (simp add: block_append_old)
  have b2: "block ?h1 ?b = Some (replicate n d)" by simp
  have "copy_loop (size_f this) (Ptr a 0) (Ptr ?b 0) ?h1
      = Inr (Ptr ?b (0 + size_f this), ?h1[?b := Some (take 0 (replicate n d)
           @ take (size_f this) (drop 0 arr) @ drop (0 + size_f this) (replicate n d))])"
    using a array n by (intro copy_loop_other [OF b1 b2]) simp_all
  then have cp: "copy_loop (size_f this) (Ptr a 0) (Ptr ?b 0) ?h1 = Inr (Ptr ?b (size_f this), ?h2)"
    by simp
  have "block ?h2 a = Some arr"
    using a array(2) by (auto simp: block_def nth_append split: if_splits)
  then have "Reserve d n (h, this) = Inr (?h3, this\<lparr>ptr_f := \<lparr>raw_ptr_f = Ptr ?b 0\<rparr>, capacity_f := n\<rparr>)"
    using array n cp
    by (simp add: Reserve_def ArrayPtr_size_def new_array_def end_it_def begin_it_def Get_def
        std_move_def std_copy_def distance_Ptr ArrayPtr_swap_def ArrayPtr_dtor_def delete_array_def)
  moreover have "xs = take (size_f this) arr"
    using el array by (simp add: elements_array)
  then have "block ?h3 ?b = Some (xs @ replicate (n - size_f this) d)"
    using a by (simp add: block_update_other block_update_same)
  moreover have "\<And>c. Ptr c 0 \<noteq> raw_ptr_f (ptr_f this) \<Longrightarrow> c \<noteq> length h \<Longrightarrow> block ?h3 c = block h c"
    using array(1) by (auto simp: block_def nth_append)
  moreover have "\<And>a'. raw_ptr_f (ptr_f this) = Ptr a' 0 \<Longrightarrow> block ?h3 a' = None"
    using array(1) a by (auto simp: block_def)
  ultimately show ?thesis using that by blast
qed

lemma Reserve_grow:
  assumes wf: "well_formed (h, this)" and el: "elements (h, this) = Inr xs"
    and n: "capacity_f this < n"
  obtains h' where
    "Reserve d n (h, this) = Inr (h', this\<lparr>ptr_f := \<lparr>raw_ptr_f = Ptr (length h) 0\<rparr>, capacity_f := n\<rparr>)"
    "block h' (length h) = Some (xs @ replicate (n - size_f this) d)"
    "\<And>c. Ptr c 0 \<noteq> raw_ptr_f (ptr_f this) \<Longrightarrow> c \<noteq> length h \<Longrightarrow> block h' c = block h c"
  using Reserve_grow_frees [OF assms, of d] by metis

lemma elements_length:
  "well_formed (h, this) \<Longrightarrow> elements (h, this) = Inr xs \<Longrightarrow> length xs = size_f this"
  by (erule well_formed_elements) simp

text \<open>\<^verbatim>\<open>PushBack\<close> of a live object that is not an element of a full vector.\<close>

lemma PushBack_ok:
  assumes wf: "well_formed (h, this)" and el: "elements (h, this) = Inr xs"
    and rd: "read_ref h v = Inr x"
    and al: "refers_into this v \<Longrightarrow> size_f this \<noteq> capacity_f this"
  obtains h' this' where
    "PushBack d v (h, this) = Inr (h', this')"
    "well_formed (h', this')"
    "elements (h', this') = Inr (xs @ [x])"
    "size_f this' = size_f this + 1"
    "capacity_f this' = (if size_f this = capacity_f this
        then (if capacity_f this = 0 then 1 else capacity_f this * 2) else capacity_f this)"
    "\<And>c. Ptr c 0 \<noteq> raw_ptr_f (ptr_f this) \<Longrightarrow> c < length h \<Longrightarrow> block h' c = block h c"
proof (cases "size_f this = capacity_f this")
  case True
  let ?n = "if capacity_f this = 0 then 1 else capacity_f this * 2"
  let ?b = "length h"
  let ?this1 = "this\<lparr>ptr_f := \<lparr>raw_ptr_f = Ptr ?b 0\<rparr>, capacity_f := ?n\<rparr>"
  let ?arr = "xs @ replicate (?n - size_f this) d"
  have n: "capacity_f this < ?n" by simp
  have len: "length xs = size_f this" using wf el by (rule elements_length)
  obtain h1 where r: "Reserve d ?n (h, this) = Inr (h1, ?this1)"
    and b: "block h1 ?b = Some ?arr"
    and fr: "\<And>c. Ptr c 0 \<noteq> raw_ptr_f (ptr_f this) \<Longrightarrow> c \<noteq> ?b \<Longrightarrow> block h1 c = block h c"
    using Reserve_grow [OF wf el n, of d] by blast
  have rd1: "read_ref h1 v = Inr x"
    using rd
  proof (rule read_ref_frame)
    fix c j assume v: "v = Element (Ptr c j)"
    from rd v have "c < length h" by (auto dest: load_live)
    moreover from al True have "\<not> refers_into this v" by auto
    then have "Ptr c 0 \<noteq> raw_ptr_f (ptr_f this)" unfolding v by (rule not_refers_into)
    ultimately show "block h1 c = block h c" by (intro fr) simp_all
  qed
  let ?h2 = "h1[?b := Some (?arr[size_f this := x])]"
  let ?this2 = "?this1\<lparr>size_f := size_f this + 1\<rparr>"
  have lt: "size_f this < length ?arr" using True len by (simp split: if_splits)
  have b1: "?b < length h1" using b by (simp add: block_SomeD)
  have "PushBack d v (h, this) = Inr (?h2, ?this2)"
    using True r lt rd1 by (simp add: PushBack_def ArrayPtr_subscript_def store_Ptr [OF b])
  moreover have b2: "block ?h2 ?b = Some (?arr[size_f this := x])"
    using b1 by (simp add: block_update_same)
  have "well_formed (?h2, ?this2)"
    using True len by (intro well_formed_array [OF _ b2]) (simp_all split: if_splits)
  moreover have "elements (?h2, ?this2) = Inr (take (size_f this + 1) (?arr[size_f this := x]))"
    using lt elements_array [of ?this2 ?b, OF _ b2] by simp
  then have "elements (?h2, ?this2) = Inr (xs @ [x])"
    using len lt by (simp add: take_Suc_conv_app_nth)
  moreover have "size_f ?this2 = size_f this + 1" by simp
  moreover have "capacity_f ?this2 = (if size_f this = capacity_f this
        then (if capacity_f this = 0 then 1 else capacity_f this * 2) else capacity_f this)"
    using True by simp
  moreover have "\<And>c. Ptr c 0 \<noteq> raw_ptr_f (ptr_f this) \<Longrightarrow> c < length h \<Longrightarrow> block ?h2 c = block h c"
    using fr by (simp add: block_update_other)
  ultimately show ?thesis using that by blast
next
  case False
  from wf show ?thesis
  proof (cases rule: well_formedE)
    case null
    with False show ?thesis by simp
  next
    case (array a arr)
    let ?h2 = "h[a := Some (arr[size_f this := x])]"
    let ?this2 = "this\<lparr>size_f := size_f this + 1\<rparr>"
    have lt: "size_f this < length arr" using False array by simp
    have a: "a < length h" using array(2) by (simp add: block_SomeD)
    have xs: "xs = take (size_f this) arr" using el array by (simp add: elements_array)
    have "PushBack d v (h, this) = Inr (?h2, ?this2)"
      using False array lt rd
      by (simp add: PushBack_def ArrayPtr_subscript_def store_Ptr [OF array(2)])
    moreover have b2: "block ?h2 a = Some (arr[size_f this := x])"
      using a by (simp add: block_update_same)
    have "well_formed (?h2, ?this2)"
      using array lt by (intro well_formed_array [OF _ b2]) simp_all
    moreover have "elements (?h2, ?this2) = Inr (take (size_f this + 1) (arr[size_f this := x]))"
      using lt array(1) elements_array [of ?this2 a, OF _ b2] by simp
    then have "elements (?h2, ?this2) = Inr (xs @ [x])"
      using xs lt by (simp add: take_Suc_conv_app_nth)
    moreover have "size_f ?this2 = size_f this + 1" by simp
    moreover have "capacity_f ?this2 = (if size_f this = capacity_f this
        then (if capacity_f this = 0 then 1 else capacity_f this * 2) else capacity_f this)"
      using False by simp
    moreover have "\<And>c. Ptr c 0 \<noteq> raw_ptr_f (ptr_f this) \<Longrightarrow> c < length h \<Longrightarrow> block ?h2 c = block h c"
      using array(1) by (simp add: block_update_other)
    ultimately show ?thesis using that by blast
  qed
qed

lemma doubling_step:
  assumes "doubling this" and "size_f this' = size_f this + 1"
    and "capacity_f this' = (if size_f this = capacity_f this
        then (if capacity_f this = 0 then 1 else capacity_f this * 2) else capacity_f this)"
  shows "doubling this'"
proof (cases "size_f this = 0")
  case True
  with assms have "capacity_f this' = 2 ^ 0" "size_f this' = 1" by (simp_all add: doubling_def)
  then have "\<exists>k. capacity_f this' = 2 ^ k" "size_f this' \<le> capacity_f this'"
    "capacity_f this' < 2 * size_f this'" "size_f this' \<noteq> 0"
    by (blast, simp_all)
  then show ?thesis unfolding doubling_def by simp
next
  case False
  with assms(1) obtain m where m: "capacity_f this = 2 ^ m"
    and le: "size_f this \<le> capacity_f this" and lt: "capacity_f this < 2 * size_f this"
    by (auto simp: doubling_def)
  show ?thesis
  proof (cases "size_f this = capacity_f this")
    case True
    with False m assms have "capacity_f this' = 2 ^ Suc m" by simp
    then have "\<exists>k. capacity_f this' = 2 ^ k" by blast
    moreover from True False assms have "size_f this' \<le> capacity_f this'" "capacity_f this' < 2 * size_f this'"
      by simp_all
    ultimately show ?thesis using assms(2) unfolding doubling_def by simp
  next
    case neq: False
    with m assms have "capacity_f this' = 2 ^ m" by simp
    then have "\<exists>k. capacity_f this' = 2 ^ k" by blast
    moreover from neq le lt assms have "size_f this' \<le> capacity_f this'" "capacity_f this' < 2 * size_f this'"
      by simp_all
    ultimately show ?thesis using assms(2) unfolding doubling_def by simp
  qed
qed

text \<open>\<^verbatim>\<open>PushBack\<close> of a reference into the array of a full vector reads the array
  \<^verbatim>\<open>Reserve\<close> has freed.\<close>

lemma PushBack_own_element_undefined:
  assumes wf: "well_formed (h, this)" and full: "size_f this = capacity_f this"
    and own: "refers_into this v"
  shows "PushBack d v (h, this) = Inl UndefinedBehaviour"
proof -
  from own obtain c j i where v: "v = Element (Ptr c j)" and raw: "raw_ptr_f (ptr_f this) = Ptr c i"
    by (rule refers_intoE)
  from wf raw have raw0: "raw_ptr_f (ptr_f this) = Ptr c 0"
    by (cases rule: well_formedE) simp_all
  from wf obtain xs where el: "elements (h, this) = Inr xs"
    using well_formed_elements by blast
  let ?n = "if capacity_f this = 0 then 1 else capacity_f this * 2"
  let ?this1 = "this\<lparr>ptr_f := \<lparr>raw_ptr_f = Ptr (length h) 0\<rparr>, capacity_f := ?n\<rparr>"
  have n: "capacity_f this < ?n" by simp
  obtain h1 where r: "Reserve d ?n (h, this) = Inr (h1, ?this1)"
    and gone: "block h1 c = None"
    using Reserve_grow_frees [OF wf el n, of d] raw0 by metis
  from full r have grow: "(if size_f this = capacity_f this
      then Reserve d (if capacity_f this = 0 then 1 else capacity_f this * 2) (h, this)
      else Inr (h, this)) = Inr (h1, ?this1)"
    by simp
  from gone v have "read_ref h1 v = Inl UndefinedBehaviour" by (simp add: load_def)
  then show ?thesis
    unfolding PushBack_def using grow by (simp add: ArrayPtr_subscript_def)
qed

text \<open>What \<^verbatim>\<open>PushBack\<close> does when it returns does not depend on where the value came
  from.\<close>

lemma PushBack_returns:
  assumes "PushBack d v (h, this) = Inr st'"
  obtains x where "PushBack d (Object x) (h, this) = Inr st'"
proof -
  from assms obtain h1 this1 r x h2 where
    "(if size_f this = capacity_f this
      then Reserve d (if capacity_f this = 0 then 1 else capacity_f this * 2) (h, this)
      else Inr (h, this)) = Inr (h1, this1)"
    "ArrayPtr_subscript (ptr_f this1) (size_f this1) = Inr r"
    "read_ref h1 v = Inr x" "store h1 r x = Inr h2"
    "st' = (h2, this1\<lparr>size_f := size_f this1 + 1\<rparr>)"
    unfolding PushBack_def by (auto simp: and_then_def Let_def split: sum.splits prod.splits)
  then have "PushBack d (Object x) (h, this) = Inr st'"
    unfolding PushBack_def by (simp add: Let_def)
  then show ?thesis by (rule that)
qed

lemma PushBack_returns_ok:
  assumes wf: "well_formed (h, this)" and r: "PushBack d v (h, this) = Inr (h', this')"
  shows "well_formed (h', this')" and "size_f this' = size_f this + 1"
    and "\<And>c. Ptr c 0 \<noteq> raw_ptr_f (ptr_f this) \<Longrightarrow> c < length h \<Longrightarrow> block h' c = block h c"
proof -
  from r obtain x where x: "PushBack d (Object x) (h, this) = Inr (h', this')"
    by (rule PushBack_returns)
  from wf obtain xs where el: "elements (h, this) = Inr xs"
    using well_formed_elements by blast
  obtain h2 this2 where p: "PushBack d (Object x) (h, this) = Inr (h2, this2)"
    and ok: "well_formed (h2, this2)" "size_f this2 = size_f this + 1"
      "\<And>c. Ptr c 0 \<noteq> raw_ptr_f (ptr_f this) \<Longrightarrow> c < length h \<Longrightarrow> block h2 c = block h c"
    using PushBack_ok [OF wf el, of "Object x" x d] by (metis read_ref_Object refers_into_Object)
  from p x have "h2 = h'" "this2 = this'" by simp_all
  with ok show "well_formed (h', this')" and "size_f this' = size_f this + 1"
    and "\<And>c. Ptr c 0 \<noteq> raw_ptr_f (ptr_f this) \<Longrightarrow> c < length h \<Longrightarrow> block h' c = block h c"
    by simp_all
qed

text \<open>A sequence of calls in which every argument is, at its call, a live object and not
  an element of a full vector.\<close>

lemma PushBack_seq_ok:
  assumes "well_formed (h, this)" and "elements (h, this) = Inr xs" and "doubling this"
    and "\<forall>j<length vs. \<forall>hj thisj. PushBack_seq d (take j vs) (h, this) = Inr (hj, thisj)
          \<longrightarrow> (\<exists>x. read_ref hj (vs ! j) = Inr x)
              \<and> (refers_into thisj (vs ! j) \<longrightarrow> size_f thisj \<noteq> capacity_f thisj)"
  shows "\<exists>h' this' ys. PushBack_seq d vs (h, this) = Inr (h', this') \<and> well_formed (h', this')
     \<and> size_f this' = size_f this + length vs \<and> doubling this'
     \<and> elements (h', this') = Inr (xs @ ys) \<and> length ys = length vs
     \<and> (\<forall>j<length vs. \<forall>hj thisj. PushBack_seq d (take j vs) (h, this) = Inr (hj, thisj)
          \<longrightarrow> read_ref hj (vs ! j) = Inr (ys ! j))"
  using assms
proof (induction vs arbitrary: h this xs)
  case Nil
  then show ?case by simp
next
  case (Cons v vs)
  from Cons.prems(4) [rule_format, of 0 h this]
  obtain x where rd: "read_ref h v = Inr x"
    and al: "refers_into this v \<Longrightarrow> size_f this \<noteq> capacity_f this"
    by auto
  obtain h1 this1 where p: "PushBack d v (h, this) = Inr (h1, this1)"
    and wf: "well_formed (h1, this1)"
    and el: "elements (h1, this1) = Inr (xs @ [x])"
    and sz: "size_f this1 = size_f this + 1"
    and cap: "capacity_f this1 = (if size_f this = capacity_f this
        then (if capacity_f this = 0 then 1 else capacity_f this * 2) else capacity_f this)"
    using PushBack_ok [OF Cons.prems(1,2) rd al, of d] by blast
  have db: "doubling this1" using Cons.prems(3) sz cap by (rule doubling_step)
  have step: "PushBack_seq d (take (Suc j) (v # vs)) (h, this) = PushBack_seq d (take j vs) (h1, this1)"
    for j using p by simp
  have "\<forall>j<length vs. \<forall>hj thisj. PushBack_seq d (take j vs) (h1, this1) = Inr (hj, thisj)
          \<longrightarrow> (\<exists>x. read_ref hj (vs ! j) = Inr x)
              \<and> (refers_into thisj (vs ! j) \<longrightarrow> size_f thisj \<noteq> capacity_f thisj)"
  proof (intro allI impI)
    fix j hj thisj
    assume j: "j < length vs" and r: "PushBack_seq d (take j vs) (h1, this1) = Inr (hj, thisj)"
    from r have "PushBack_seq d (take (Suc j) (v # vs)) (h, this) = Inr (hj, thisj)"
      by (simp only: step)
    with Cons.prems(4) [rule_format, of "Suc j" hj thisj] j
    show "(\<exists>x. read_ref hj (vs ! j) = Inr x)
        \<and> (refers_into thisj (vs ! j) \<longrightarrow> size_f thisj \<noteq> capacity_f thisj)"
      by simp
  qed
  from Cons.IH [OF wf el db this] obtain h' this' ys where
    r: "PushBack_seq d vs (h1, this1) = Inr (h', this')" and wf': "well_formed (h', this')"
    and sz': "size_f this' = size_f this1 + length vs" and db': "doubling this'"
    and el': "elements (h', this') = Inr ((xs @ [x]) @ ys)" and len: "length ys = length vs"
    and rds: "\<forall>j<length vs. \<forall>hj thisj. PushBack_seq d (take j vs) (h1, this1) = Inr (hj, thisj)
          \<longrightarrow> read_ref hj (vs ! j) = Inr (ys ! j)"
    by blast
  have "\<forall>j<length (v # vs). \<forall>hj thisj. PushBack_seq d (take j (v # vs)) (h, this) = Inr (hj, thisj)
          \<longrightarrow> read_ref hj ((v # vs) ! j) = Inr ((x # ys) ! j)"
  proof (intro allI impI)
    fix j hj thisj
    assume j: "j < length (v # vs)"
      and q: "PushBack_seq d (take j (v # vs)) (h, this) = Inr (hj, thisj)"
    show "read_ref hj ((v # vs) ! j) = Inr ((x # ys) ! j)"
    proof (cases j)
      case 0
      with q rd show ?thesis by simp
    next
      case (Suc i)
      with q have "PushBack_seq d (take i vs) (h1, this1) = Inr (hj, thisj)"
        by (simp only: step)
      with rds Suc j show ?thesis by simp
    qed
  qed
  moreover have "PushBack_seq d (v # vs) (h, this) = Inr (h', this')" using p r by simp
  moreover have "size_f this' = size_f this + length (v # vs)" using sz sz' by simp
  moreover have "elements (h', this') = Inr (xs @ x # ys)" using el' by simp
  moreover have "length (x # ys) = length (v # vs)" using len by simp
  ultimately show ?case using wf' db' by blast
qed

lemma doubling_least:
  assumes "doubling this" and "size_f this \<noteq> 0"
  shows "\<exists>m. capacity_f this = 2 ^ m \<and> size_f this \<le> 2 ^ m \<and> 2 ^ m < 2 * size_f this
     \<and> (\<forall>j. size_f this \<le> 2 ^ j \<longrightarrow> (2::nat) ^ m \<le> 2 ^ j)"
proof -
  from assms obtain m where m: "capacity_f this = 2 ^ m"
    and le: "size_f this \<le> capacity_f this" and lt: "capacity_f this < 2 * size_f this"
    by (auto simp: doubling_def)
  have "(2::nat) ^ m \<le> 2 ^ j" if j: "size_f this \<le> 2 ^ j" for j
  proof (rule ccontr)
    assume "\<not> (2::nat) ^ m \<le> 2 ^ j"
    then have "j < m" by (simp add: not_le)
    then have "(2::nat) ^ Suc j \<le> 2 ^ m" by (intro power_increasing) simp_all
    with m lt j show False by simp
  qed
  with m le lt show ?thesis by auto
qed


section \<open>Constructors and the simple operations\<close>

text \<open>Every constructor returns a well-formed vector, and \<^verbatim>\<open>Reserve\<close>, \<^verbatim>\<open>Clear\<close> and
  \<^verbatim>\<open>PopBack\<close> keep it well-formed.\<close>

lemma SimpleVector_default_ok:
  "well_formed (h, SimpleVector_default) \<and> elements (h, SimpleVector_default) = Inr []"
  by (simp add: well_formed_def invariant_def elements_null SimpleVector_default_def
      ArrayPtr_default_def)

lemma SimpleVector_size_ok:
  "\<exists>h' this. SimpleVector_size d n h = Inr (h', this) \<and> well_formed (h', this)
     \<and> elements (h', this) = Inr (replicate n d) \<and> size_f this = n \<and> capacity_f this = n"
proof (cases "n = 0")
  case True
  then show ?thesis
    by (simp add: SimpleVector_size_def SimpleVector_default_def ArrayPtr_default_def
        ArrayPtr_size_def ArrayPtr_swap_def ArrayPtr_dtor_def delete_array_def
        well_formed_null elements_null)
next
  case False
  let ?h' = "h @ [Some (replicate n d)]"
  let ?vec = "\<lparr>ptr_f = \<lparr>raw_ptr_f = Ptr (length h) 0\<rparr>, size_f = n, capacity_f = n\<rparr>"
  have b: "block ?h' (length h) = Some (replicate n d)" by simp
  have "SimpleVector_size d n h = Inr (?h', ?vec)"
    using False
    by (simp add: SimpleVector_size_def SimpleVector_default_def ArrayPtr_default_def
        ArrayPtr_size_def new_array_def ArrayPtr_swap_def ArrayPtr_dtor_def delete_array_def)
  moreover have "well_formed (?h', ?vec)"
    by (intro well_formed_array [OF _ b]) simp_all
  moreover have "elements (?h', ?vec) = Inr (replicate n d)"
    using elements_array [of ?vec "length h", OF _ b] by simp
  ultimately show ?thesis by simp
qed

lemma SimpleVector_fill_ok:
  "\<exists>h' this. SimpleVector_fill d n v h = Inr (h', this) \<and> well_formed (h', this)
     \<and> elements (h', this) = Inr (replicate n v) \<and> size_f this = n \<and> capacity_f this = n"
proof (cases "n = 0")
  case True
  then show ?thesis
    by (simp add: SimpleVector_fill_def SimpleVector_default_def ArrayPtr_default_def
        ArrayPtr_size_def ArrayPtr_swap_def ArrayPtr_dtor_def delete_array_def
        well_formed_null elements_null fill_loop.simps [of 0 0])
next
  case False
  let ?h1 = "h @ [Some (replicate n d)]"
  let ?h' = "h @ [Some (replicate n v)]"
  let ?vec = "\<lparr>ptr_f = \<lparr>raw_ptr_f = Ptr (length h) 0\<rparr>, size_f = n, capacity_f = n\<rparr>"
  have b1: "block ?h1 (length h) = Some (replicate n d)" by simp
  have b: "block ?h' (length h) = Some (replicate n v)" by simp
  have "fill_loop 0 n v \<lparr>raw_ptr_f = Ptr (length h) 0\<rparr> ?h1
      = Inr (?h1[length h := Some (take 0 (replicate n d) @ replicate (n - 0) v
          @ drop n (replicate n d))])"
    by (intro fill_loop_block [OF b1]) simp_all
  then have "fill_loop 0 n v \<lparr>raw_ptr_f = Ptr (length h) 0\<rparr> ?h1 = Inr ?h'"
    by simp
  then have "SimpleVector_fill d n v h = Inr (?h', ?vec)"
    using False
    by (simp add: SimpleVector_fill_def SimpleVector_default_def ArrayPtr_default_def
        ArrayPtr_size_def new_array_def ArrayPtr_swap_def ArrayPtr_dtor_def delete_array_def)
  moreover have "well_formed (?h', ?vec)"
    by (intro well_formed_array [OF _ b]) simp_all
  moreover have "elements (?h', ?vec) = Inr (replicate n v)"
    using elements_array [of ?vec "length h", OF _ b] by simp
  ultimately show ?thesis by simp
qed

lemma SimpleVector_init_ok:
  "\<exists>h' this. SimpleVector_init d vs h = Inr (h', this) \<and> well_formed (h', this)
     \<and> elements (h', this) = Inr vs \<and> size_f this = length vs \<and> capacity_f this = length vs"
proof (cases "vs = []")
  case True
  then show ?thesis
    by (simp add: SimpleVector_init_def SimpleVector_default_def ArrayPtr_default_def
        ArrayPtr_size_def ArrayPtr_swap_def ArrayPtr_dtor_def delete_array_def
        well_formed_null elements_null)
next
  case False
  let ?n = "length vs"
  let ?h1 = "h @ [Some (replicate ?n d)]"
  let ?h' = "h @ [Some vs]"
  let ?vec = "\<lparr>ptr_f = \<lparr>raw_ptr_f = Ptr (length h) 0\<rparr>, size_f = ?n, capacity_f = ?n\<rparr>"
  have b1: "block ?h1 (length h) = Some (replicate ?n d)" by simp
  have b: "block ?h' (length h) = Some vs" by simp
  have "init_loop 0 vs \<lparr>raw_ptr_f = Ptr (length h) 0\<rparr> ?h1
      = Inr (?h1[length h := Some (take 0 (replicate ?n d) @ vs
          @ drop (0 + ?n) (replicate ?n d))])"
    by (intro init_loop_block [OF b1]) simp_all
  then have "init_loop 0 vs \<lparr>raw_ptr_f = Ptr (length h) 0\<rparr> ?h1 = Inr ?h'"
    by simp
  then have "SimpleVector_init d vs h = Inr (?h', ?vec)"
    using False
    by (simp add: SimpleVector_init_def SimpleVector_default_def ArrayPtr_default_def
        ArrayPtr_size_def new_array_def ArrayPtr_swap_def ArrayPtr_dtor_def delete_array_def)
  moreover have "well_formed (?h', ?vec)"
    by (intro well_formed_array [OF _ b]) simp_all
  moreover have "elements (?h', ?vec) = Inr vs"
    using elements_array [of ?vec "length h", OF _ b] by simp
  ultimately show ?thesis by simp
qed

lemma Reserve_ok:
  assumes wf: "well_formed (h, this)" and el: "elements (h, this) = Inr xs"
  shows "\<exists>h' this'. Reserve d n (h, this) = Inr (h', this') \<and> well_formed (h', this')
     \<and> elements (h', this') = Inr xs \<and> size_f this' = size_f this
     \<and> capacity_f this' = max n (capacity_f this)"
proof (cases "capacity_f this < n")
  case True
  let ?this' = "this\<lparr>ptr_f := \<lparr>raw_ptr_f = Ptr (length h) 0\<rparr>, capacity_f := n\<rparr>"
  let ?arr = "xs @ replicate (n - size_f this) d"
  have len: "length xs = size_f this" using wf el by (rule elements_length)
  have sz: "size_f this \<le> capacity_f this" using wf by (auto elim: well_formedE)
  obtain h' where r: "Reserve d n (h, this) = Inr (h', ?this')"
    and b: "block h' (length h) = Some ?arr"
    using Reserve_grow [OF wf el True, of d] by blast
  have "well_formed (h', ?this')"
    using True sz len by (intro well_formed_array [OF _ b]) simp_all
  moreover have "elements (h', ?this') = Inr (take (size_f ?this') ?arr)"
    using True sz len by (intro elements_array [OF _ b]) simp_all
  ultimately show ?thesis using r True len by (simp add: max_def)
next
  case False
  with wf el show ?thesis by (simp add: Reserve_def max_def)
qed

lemma SimpleVector_reserve_ok:
  "\<exists>h' this. SimpleVector_reserve d n h = Inr (h', this) \<and> well_formed (h', this)
     \<and> elements (h', this) = Inr [] \<and> size_f this = 0 \<and> capacity_f this = n"
  using Reserve_ok [of h SimpleVector_default "[]" d n] SimpleVector_default_ok [of h]
  by (simp add: SimpleVector_reserve_def SimpleVector_default_def)

lemma Clear_ok:
  assumes "well_formed (h, this)"
  shows "well_formed (Clear (h, this)) \<and> elements (Clear (h, this)) = Inr []
     \<and> capacity_f (snd (Clear (h, this))) = capacity_f this \<and> size_f (snd (Clear (h, this))) = 0"
  using assms
proof (cases rule: well_formedE)
  case null
  then show ?thesis by (simp add: Clear_def well_formed_null elements_null)
next
  case (array a xs)
  then show ?thesis
    using elements_array [of "this\<lparr>size_f := 0\<rparr>" a h xs]
    by (simp add: Clear_def well_formed_array [of _ a h xs])
qed

lemma PopBack_ok:
  assumes wf: "well_formed (h, this)" and el: "elements (h, this) = Inr xs"
    and ne: "size_f this \<noteq> 0"
  shows "PopBack d (h, this) = Inr (h, this\<lparr>size_f := size_f this - 1\<rparr>)
     \<and> well_formed (h, this\<lparr>size_f := size_f this - 1\<rparr>)
     \<and> elements (h, this\<lparr>size_f := size_f this - 1\<rparr>) = Inr (butlast xs)"
  using wf
proof (cases rule: well_formedE)
  case null
  with ne show ?thesis by simp
next
  case (array a arr)
  let ?this' = "this\<lparr>size_f := size_f this - 1\<rparr>"
  have xs: "xs = take (size_f this) arr" using el array by (simp add: elements_array)
  have "\<not> capacity_f this < size_f this - 1" "\<not> size_f this < size_f this - 1"
    using array by simp_all
  then have "PopBack d (h, this) = Inr (h, ?this')"
    using ne by (simp add: PopBack_def Resize_def del: One_nat_def)
  moreover have "well_formed (h, ?this')"
    using array by (intro well_formed_array [OF _ array(2)]) simp_all
  moreover have "elements (h, ?this') = Inr (take (size_f this - 1) arr)"
    using array elements_array [of ?this' a, OF _ array(2)] by simp
  moreover have "butlast xs = take (size_f this - 1) arr"
    using xs array by (simp add: butlast_take)
  ultimately show ?thesis by simp
qed

lemma swap_fields:
  "swap this sv objs this = objs sv" "swap this sv objs sv = objs this"
  by (cases "this = sv"; simp add: swap_def ArrayPtr_swap_def Let_def)+

section \<open>Ownership transfer of ArrayPtr\<close>

text \<open>
  C8. \<^verbatim>\<open>Release()\<close> returns the raw handle, leaves the buffer empty (null) and does not
  touch the heap; destroying the released buffer afterwards is a no-op on every heap
  \<open>h'\<close>. When the buffer owned the live array \<open>a\<close>: the array is still live after
  \<^verbatim>\<open>Release()\<close>, the caller can free it through the handle, and the destructor of the
  released buffer then leaves that heap as it is, so the array is freed once. (A buffer
  that still held the handle would free it a second time, which is undefined behaviour.)
\<close>

theorem Release_then_destruction:
  "Release this h = (raw_ptr_f this, this\<lparr>raw_ptr_f := Null\<rparr>, h)
   \<and> Get (fst (snd (Release this h))) = Null
   \<and> ArrayPtr_dtor (fst (snd (Release this (h :: 'a heap)))) (h' :: 'a heap) = Inr h'
   \<and> (raw_ptr_f this = Ptr a 0 \<and> block h a = Some xs \<longrightarrow>
         block (snd (snd (Release this h))) a = Some xs
       \<and> delete_array (fst (Release this h)) h = Inr (h[a := None])
       \<and> ArrayPtr_dtor (fst (snd (Release this h))) (h[a := None]) = Inr (h[a := None])
       \<and> ArrayPtr_dtor this (h[a := None]) = Inl UndefinedBehaviour)"
  by (auto simp: Release_def ArrayPtr_dtor_def delete_array_def Get_def block_def)

theorem Release_then_destruction_witness:
  "raw_ptr_f \<lparr>raw_ptr_f = Ptr 0 0\<rparr> = Ptr 0 0 \<and> block [Some [1, 2, 3 :: int]] 0 = Some [1, 2, 3]
   \<and> Release \<lparr>raw_ptr_f = Ptr 0 0\<rparr> [Some [1, 2, 3 :: int]]
       = (Ptr 0 0, \<lparr>raw_ptr_f = Null\<rparr>, [Some [1, 2, 3]])
   \<and> ArrayPtr_dtor \<lparr>raw_ptr_f = Null\<rparr> [Some [1, 2, 3 :: int]] = Inr [Some [1, 2, 3]]
   \<and> delete_array (Ptr 0 0) [Some [1, 2, 3 :: int]] = Inr [None]
   \<and> ArrayPtr_dtor \<lparr>raw_ptr_f = Null\<rparr> ([None] :: int heap) = Inr [None]
   \<and> ArrayPtr_dtor \<lparr>raw_ptr_f = Ptr 0 0\<rparr> ([None] :: int heap) = Inl UndefinedBehaviour"
  using Release_then_destruction [of "\<lparr>raw_ptr_f = Ptr 0 0\<rparr>" "[Some [1, 2, 3 :: int]]"
      "[Some [1, 2, 3 :: int]]" 0 "[1, 2, 3]"]
  by (simp add: block_def Release_def)

section \<open>Checked and unchecked access\<close>

text \<open>
  C5. \<^verbatim>\<open>At(i)\<close> throws \<^verbatim>\<open>std::out_of_range\<close> exactly when \<open>i \<ge> size\<close>; for \<open>i < size\<close>
  it returns the reference \<^verbatim>\<open>operator[](i)\<close> returns, which on a well-formed vector
  holding \<open>xs\<close> refers to the element \<open>xs ! i\<close>; in both cases the heap and the object are
  as before the call.
\<close>

theorem At_checked:
  "(fst (At i (h, this)) = Inl OutOfRange \<longleftrightarrow> i \<ge> GetSize this)
   \<and> (i < GetSize this \<longrightarrow> fst (At i (h, this)) = subscript i this)
   \<and> (i < GetSize this \<and> well_formed (h, this) \<and> elements (h, this) = Inr xs \<longrightarrow>
        (\<exists>r. fst (At i (h, this)) = Inr r \<and> load h r = Inr (xs ! i)))
   \<and> snd (At i (h, this)) = (h, this)"
proof -
  have 1: "fst (At i (h, this)) = Inl OutOfRange \<longleftrightarrow> i \<ge> GetSize this"
    by (auto simp: At_def GetSize_def ArrayPtr_subscript_def ptr_add_def split: pointer.splits)
  have 2: "fst (At i (h, this)) = subscript i this" if "i < GetSize this"
    using that by (simp add: At_def GetSize_def subscript_def)
  have 3: "\<exists>r. fst (At i (h, this)) = Inr r \<and> load h r = Inr (xs ! i)"
    if i: "i < GetSize this" and wf: "well_formed (h, this)" and el: "elements (h, this) = Inr xs"
    using wf
  proof (cases rule: well_formedE)
    case null
    with i show ?thesis by (simp add: GetSize_def)
  next
    case (array a arr)
    with el have "xs = take (size_f this) arr" by (simp add: elements_array)
    with i array have "load h (Ptr a i) = Inr (xs ! i)"
      by (simp add: GetSize_def load_Ptr)
    with i array show ?thesis
      by (simp add: At_def GetSize_def ArrayPtr_subscript_def)
  qed
  have 4: "snd (At i (h, this)) = (h, this)" by (simp add: At_def)
  from 1 2 3 4 show ?thesis by blast
qed

theorem At_checked_witness:
  "(1::nat) < GetSize \<lparr>ptr_f = \<lparr>raw_ptr_f = Ptr 0 0\<rparr>, size_f = 3, capacity_f = 3\<rparr>
   \<and> well_formed ([Some [1, 2, 3 :: int]],
        \<lparr>ptr_f = \<lparr>raw_ptr_f = Ptr 0 0\<rparr>, size_f = 3, capacity_f = 3\<rparr>)
   \<and> elements ([Some [1, 2, 3 :: int]],
        \<lparr>ptr_f = \<lparr>raw_ptr_f = Ptr 0 0\<rparr>, size_f = 3, capacity_f = 3\<rparr>) = Inr [1, 2, 3]
   \<and> fst (At 1 ([Some [1, 2, 3 :: int]],
        \<lparr>ptr_f = \<lparr>raw_ptr_f = Ptr 0 0\<rparr>, size_f = 3, capacity_f = 3\<rparr>)) = Inr (Ptr 0 1)
   \<and> subscript 1 \<lparr>ptr_f = \<lparr>raw_ptr_f = Ptr 0 0\<rparr>, size_f = 3, capacity_f = 3\<rparr> = Inr (Ptr 0 1)
   \<and> load [Some [1, 2, 3 :: int]] (Ptr 0 1) = Inr 2
   \<and> fst (At 3 ([Some [1, 2, 3 :: int]],
        \<lparr>ptr_f = \<lparr>raw_ptr_f = Ptr 0 0\<rparr>, size_f = 3, capacity_f = 3\<rparr>)) = Inl OutOfRange
   \<and> snd (At 3 ([Some [1, 2, 3 :: int]],
        \<lparr>ptr_f = \<lparr>raw_ptr_f = Ptr 0 0\<rparr>, size_f = 3, capacity_f = 3\<rparr>))
       = ([Some [1, 2, 3]], \<lparr>ptr_f = \<lparr>raw_ptr_f = Ptr 0 0\<rparr>, size_f = 3, capacity_f = 3\<rparr>)"
proof -
  let ?h = "[Some [1, 2, 3 :: int]]"
  let ?v = "\<lparr>ptr_f = \<lparr>raw_ptr_f = Ptr 0 0\<rparr>, size_f = 3, capacity_f = 3\<rparr>"
  have lt: "(1::nat) < GetSize ?v" by (simp add: GetSize_def)
  have ge: "(3::nat) \<ge> GetSize ?v" by (simp add: GetSize_def)
  have wf: "well_formed (?h, ?v)" by code_simp
  have el: "elements (?h, ?v) = Inr [1, 2, 3]" by code_simp
  have at: "fst (At 1 (?h, ?v)) = Inr (Ptr 0 1)" by code_simp
  have ld: "load ?h (Ptr 0 1) = Inr 2" by code_simp
  from At_checked [of 1 ?h ?v "[1, 2, 3]"] lt at have "subscript 1 ?v = Inr (Ptr 0 1)" by simp
  moreover from At_checked [of 3 ?h ?v "[1, 2, 3]"] ge
  have "fst (At 3 (?h, ?v)) = Inl OutOfRange" "snd (At 3 (?h, ?v)) = (?h, ?v)" by simp_all
  ultimately show ?thesis using lt wf el at ld by simp
qed

section \<open>Growth by PushBack\<close>

text \<open>
  C3. Take \<open>k \<ge> 1\<close> calls of \<^verbatim>\<open>PushBack\<close> on a default-constructed vector (in any heap),
  where the argument of every call is, at that call, a live object, and does not refer
  into the array of the vector itself (to one of its elements) while the vector is full
  (\<^verbatim>\<open>size_ == capacity_\<close>). Then the calls all return, the size is \<open>k\<close>, the capacity is
  at least \<open>k\<close>, less than \<open>2 * k\<close>, and is the least power of two that is at least \<open>k\<close>;
  the vector holds, in order, the value each argument had at its call.
  The state a call finds is the result of the calls before it, \<open>take j vs\<close>.
\<close>

theorem PushBack_growth:
  assumes "vs \<noteq> []"
    and "\<forall>j<length vs. \<forall>hj thisj.
           PushBack_seq d (take j vs) (h, SimpleVector_default) = Inr (hj, thisj)
           \<longrightarrow> (\<exists>x. read_ref hj (vs ! j) = Inr x)
               \<and> (refers_into thisj (vs ! j) \<longrightarrow> GetSize thisj \<noteq> GetCapacity thisj)"
  shows "\<exists>h' this'. PushBack_seq d vs (h, SimpleVector_default) = Inr (h', this')
     \<and> GetSize this' = length vs \<and> GetCapacity this' \<ge> length vs
     \<and> GetCapacity this' < 2 * length vs
     \<and> (\<exists>m. GetCapacity this' = 2 ^ m
          \<and> (\<forall>j. length vs \<le> 2 ^ j \<longrightarrow> (2::nat) ^ m \<le> 2 ^ j))
     \<and> (\<exists>ys. elements (h', this') = Inr ys \<and> length ys = length vs
          \<and> (\<forall>j<length vs. \<forall>hj thisj.
                PushBack_seq d (take j vs) (h, SimpleVector_default) = Inr (hj, thisj)
                \<longrightarrow> read_ref hj (vs ! j) = Inr (ys ! j)))"
proof -
  have wf: "well_formed (h, SimpleVector_default)"
    by (simp add: well_formed_def invariant_def SimpleVector_default_def ArrayPtr_default_def)
  have el: "elements (h, SimpleVector_default) = Inr []"
    by (simp add: elements_null SimpleVector_default_def ArrayPtr_default_def)
  have db: "doubling SimpleVector_default"
    by (simp add: doubling_def SimpleVector_default_def)
  from assms(2) have hyp: "\<forall>j<length vs. \<forall>hj thisj.
           PushBack_seq d (take j vs) (h, SimpleVector_default) = Inr (hj, thisj)
           \<longrightarrow> (\<exists>x. read_ref hj (vs ! j) = Inr x)
               \<and> (refers_into thisj (vs ! j) \<longrightarrow> size_f thisj \<noteq> capacity_f thisj)"
    by (simp add: GetSize_def GetCapacity_def)
  from PushBack_seq_ok [OF wf el db hyp] obtain h' this' ys
    where r: "PushBack_seq d vs (h, SimpleVector_default) = Inr (h', this')"
      and s: "size_f this' = length vs"
      and d: "doubling this'"
      and e: "elements (h', this') = Inr ys" "length ys = length vs"
        "\<forall>j<length vs. \<forall>hj thisj.
            PushBack_seq d (take j vs) (h, SimpleVector_default) = Inr (hj, thisj)
            \<longrightarrow> read_ref hj (vs ! j) = Inr (ys ! j)"
    by (auto simp: SimpleVector_default_def)
  from s assms(1) have "size_f this' \<noteq> 0" by simp
  from doubling_least [OF d this] obtain m where
    m: "capacity_f this' = 2 ^ m" "size_f this' \<le> 2 ^ m" "2 ^ m < 2 * size_f this'"
      "\<forall>j. size_f this' \<le> 2 ^ j \<longrightarrow> (2::nat) ^ m \<le> 2 ^ j"
    by blast
  from m s have c: "GetCapacity this' \<ge> length vs" "GetCapacity this' < 2 * length vs"
    "\<exists>m. GetCapacity this' = 2 ^ m \<and> (\<forall>j. length vs \<le> 2 ^ j \<longrightarrow> (2::nat) ^ m \<le> 2 ^ j)"
    by (auto simp: GetCapacity_def)
  from s have "GetSize this' = length vs" by (simp add: GetSize_def)
  with r c e show ?thesis by blast
qed

theorem PushBack_growth_witness:
  "[Object 1, Object 2, Object 3, Element (Ptr 2 0) :: int cref] \<noteq> []
   \<and> PushBack_seq 0 [Object 1, Object 2, Object (3 :: int)] ([], SimpleVector_default)
     = Inr ([None, None, Some [1, 2, 3, 0]],
            \<lparr>ptr_f = \<lparr>raw_ptr_f = Ptr 2 0\<rparr>, size_f = 3, capacity_f = 4\<rparr>)
   \<and> subscript 0 \<lparr>ptr_f = \<lparr>raw_ptr_f = Ptr 2 0\<rparr>, size_f = 3, capacity_f = 4\<rparr> = Inr (Ptr 2 0)
   \<and> read_ref [None, None, Some [1, 2, 3, 0 :: int]] (Element (Ptr 2 0)) = Inr 1
   \<and> refers_into \<lparr>ptr_f = \<lparr>raw_ptr_f = Ptr 2 0\<rparr>, size_f = 3, capacity_f = 4\<rparr>
        (Element (Ptr 2 0) :: int cref)
   \<and> GetSize \<lparr>ptr_f = \<lparr>raw_ptr_f = Ptr 2 0\<rparr>, size_f = 3, capacity_f = 4\<rparr>
        \<noteq> GetCapacity \<lparr>ptr_f = \<lparr>raw_ptr_f = Ptr 2 0\<rparr>, size_f = 3, capacity_f = 4\<rparr>
   \<and> PushBack_seq 0 [Object 1, Object 2, Object 3, Element (Ptr 2 0) :: int cref]
        ([], SimpleVector_default)
     = Inr ([None, None, Some [1, 2, 3, 1]],
            \<lparr>ptr_f = \<lparr>raw_ptr_f = Ptr 2 0\<rparr>, size_f = 4, capacity_f = 4\<rparr>)
   \<and> (\<exists>h' this'. PushBack_seq 0 [Object 1, Object 2, Object 3, Element (Ptr 2 0) :: int cref]
        ([], SimpleVector_default) = Inr (h', this')
     \<and> GetSize this' = 4 \<and> GetCapacity this' \<ge> 4
     \<and> (\<exists>m. GetCapacity this' = 2 ^ m \<and> (\<forall>j. (4::nat) \<le> 2 ^ j \<longrightarrow> (2::nat) ^ m \<le> 2 ^ j))
     \<and> elements (h', this') = Inr [1, 2, 3, 1])"
proof -
  let ?vs = "[Object 1, Object 2, Object 3, Element (Ptr 2 0) :: int cref]"
  let ?v3 = "\<lparr>ptr_f = \<lparr>raw_ptr_f = Ptr 2 0\<rparr>, size_f = 3, capacity_f = 4\<rparr>"
  have ne: "?vs \<noteq> []" by simp
  have r1: "PushBack_seq 0 [Object (1 :: int)] ([], SimpleVector_default)
     = Inr ([Some [1]], \<lparr>ptr_f = \<lparr>raw_ptr_f = Ptr 0 0\<rparr>, size_f = 1, capacity_f = 1\<rparr>)"
    by code_simp
  have r2: "PushBack_seq 0 [Object 1, Object (2 :: int)] ([], SimpleVector_default)
     = Inr ([None, Some [1, 2]], \<lparr>ptr_f = \<lparr>raw_ptr_f = Ptr 1 0\<rparr>, size_f = 2, capacity_f = 2\<rparr>)"
    by code_simp
  have r3: "PushBack_seq 0 [Object 1, Object 2, Object (3 :: int)] ([], SimpleVector_default)
     = Inr ([None, None, Some [1, 2, 3, 0]], ?v3)"
    by code_simp
  have r4: "PushBack_seq 0 ?vs ([], SimpleVector_default)
     = Inr ([None, None, Some [1, 2, 3, 1]],
            \<lparr>ptr_f = \<lparr>raw_ptr_f = Ptr 2 0\<rparr>, size_f = 4, capacity_f = 4\<rparr>)"
    by code_simp
  have ix: "subscript 0 ?v3 = Inr (Ptr 2 0)" by code_simp
  have rd: "read_ref [None, None, Some [1, 2, 3, 0 :: int]] (Element (Ptr 2 0)) = Inr 1"
    by code_simp
  have ri: "refers_into ?v3 (Element (Ptr 2 0) :: int cref)" by code_simp
  have nf: "GetSize ?v3 \<noteq> GetCapacity ?v3" by code_simp
  have hyp: "\<forall>j<length ?vs. \<forall>hj thisj.
           PushBack_seq 0 (take j ?vs) ([], SimpleVector_default) = Inr (hj, thisj)
           \<longrightarrow> (\<exists>x. read_ref hj (?vs ! j) = Inr x)
               \<and> (refers_into thisj (?vs ! j) \<longrightarrow> GetSize thisj \<noteq> GetCapacity thisj)"
  proof (intro allI impI)
    fix j hj thisj
    assume j: "j < length ?vs"
      and r: "PushBack_seq 0 (take j ?vs) ([], SimpleVector_default) = Inr (hj, thisj)"
    from j have "j = 0 \<or> j = 1 \<or> j = 2 \<or> j = 3" by auto
    then show "(\<exists>x. read_ref hj (?vs ! j) = Inr x)
        \<and> (refers_into thisj (?vs ! j) \<longrightarrow> GetSize thisj \<noteq> GetCapacity thisj)"
    proof (elim disjE)
      assume "j = 0"
      then show ?thesis by simp
    next
      assume "j = 1"
      then show ?thesis by simp
    next
      assume "j = 2"
      then show ?thesis by simp
    next
      assume j3: "j = 3"
      have "take 3 ?vs = [Object 1, Object 2, Object 3]" by (simp add: numeral_3_eq_3)
      with r j3 r3 have "hj = [None, None, Some [1, 2, 3, 0]]" "thisj = ?v3" by simp_all
      with j3 rd nf show ?thesis by (simp add: numeral_3_eq_3)
    qed
  qed
  have el4: "elements ([None, None, Some [1, 2, 3, 1 :: int]],
            \<lparr>ptr_f = \<lparr>raw_ptr_f = Ptr 2 0\<rparr>, size_f = 4, capacity_f = 4\<rparr>) = Inr [1, 2, 3, 1]"
    by code_simp
  from PushBack_growth [OF ne hyp] ne r3 ix rd ri nf r4 el4 show ?thesis by auto
qed

text \<open>
  The call \<^verbatim>\<open>v.PushBack(v[0])\<close> on a full vector: \<^verbatim>\<open>Reserve\<close> frees the array the
  argument refers to before the assignment reads it (lemma
  \<open>PushBack_own_element_undefined\<close>). Here \<^verbatim>\<open>v.PushBack(7)\<close> leaves a vector of size 1 and
  capacity 1, whose element \<^verbatim>\<open>v[0]\<close> is at \<open>Ptr 0 0\<close>, and the second call does not
  return.
\<close>

theorem PushBack_own_element_when_full:
  "PushBack_seq 0 [Object (7 :: int)] ([], SimpleVector_default)
     = Inr ([Some [7]], \<lparr>ptr_f = \<lparr>raw_ptr_f = Ptr 0 0\<rparr>, size_f = 1, capacity_f = 1\<rparr>)
   \<and> subscript 0 \<lparr>ptr_f = \<lparr>raw_ptr_f = Ptr 0 0\<rparr>, size_f = 1, capacity_f = 1\<rparr> = Inr (Ptr 0 0)
   \<and> read_ref [Some [7 :: int]] (Element (Ptr 0 0)) = Inr 7
   \<and> PushBack_seq 0 [Object (7 :: int), Element (Ptr 0 0)] ([], SimpleVector_default)
     = Inl UndefinedBehaviour"
  by code_simp

section \<open>Resize\<close>

lemma Resize_ok:
  assumes wf: "well_formed (h, this)" and el: "elements (h, this) = Inr xs"
  shows "\<exists>h' this'. Resize d new_size (h, this) = Inr (h', this')
     \<and> size_f this' = new_size
     \<and> capacity_f this' = (if new_size > capacity_f this then new_size else capacity_f this)
     \<and> elements (h', this') = Inr (take new_size xs @ replicate (new_size - size_f this) d)
     \<and> well_formed (h', this')"
proof -
  have len: "length xs = size_f this" using wf el by (rule elements_length)
  show ?thesis
  proof (cases "new_size > capacity_f this")
    case True
    let ?b = "length h"
    let ?this1 = "this\<lparr>ptr_f := \<lparr>raw_ptr_f = Ptr ?b 0\<rparr>, capacity_f := new_size\<rparr>"
    let ?arr = "xs @ replicate (new_size - size_f this) d"
    obtain h1 where r: "Reserve d new_size (h, this) = Inr (h1, ?this1)"
      and b: "block h1 ?b = Some ?arr"
      using Reserve_grow [OF wf el True, of d] by blast
    have sz: "size_f this < new_size" using wf True by (auto elim: well_formedE)
    let ?new = "take (size_f this) ?arr @ replicate (new_size - size_f this) d @ drop new_size ?arr"
    let ?h2 = "h1[?b := Some ?new]"
    let ?this2 = "?this1\<lparr>size_f := new_size\<rparr>"
    have lp: "Resize_loop d (Ptr ?b (size_f this)) (Ptr ?b new_size) h1 = Inr ?h2"
      using sz len by (intro Resize_loop_block [OF b]) simp_all
    have "Resize d new_size (h, this) = Inr (?h2, ?this2)"
      using True r sz lp by (simp add: Resize_def end_it_def Get_def)
    moreover have b2: "block ?h2 ?b = Some ?new"
      using b by (simp add: block_SomeD block_update_same)
    have "well_formed (?h2, ?this2)"
      using sz len by (intro well_formed_array [OF _ b2]) simp_all
    moreover have "elements (?h2, ?this2) = Inr (take new_size ?new)"
      using sz len elements_array [of ?this2 ?b, OF _ b2] by simp
    then have "elements (?h2, ?this2) = Inr (take new_size xs @ replicate (new_size - size_f this) d)"
      using sz len by simp
    ultimately show ?thesis using True by auto
  next
    case False
    show ?thesis
    proof (cases "new_size > size_f this")
      case grow: True
      from wf show ?thesis
      proof (cases rule: well_formedE)
        case null
        with grow False show ?thesis by simp
      next
        case (array a arr)
        let ?new = "take (size_f this) arr @ replicate (new_size - size_f this) d @ drop new_size arr"
        let ?h2 = "h[a := Some ?new]"
        let ?this2 = "this\<lparr>size_f := new_size\<rparr>"
        have xs: "xs = take (size_f this) arr" using el array by (simp add: elements_array)
        have lp: "Resize_loop d (Ptr a (size_f this)) (Ptr a new_size) h = Inr ?h2"
          using grow False array by (intro Resize_loop_block [OF array(2)]) simp_all
        have "Resize d new_size (h, this) = Inr (?h2, ?this2)"
          using False grow array lp by (simp add: Resize_def end_it_def Get_def)
        moreover have b2: "block ?h2 a = Some ?new"
          using array(2) by (simp add: block_SomeD block_update_same)
        have "well_formed (?h2, ?this2)"
          using grow False array by (intro well_formed_array [OF _ b2]) simp_all
        moreover have "elements (?h2, ?this2) = Inr (take new_size ?new)"
          using grow False array elements_array [of ?this2 a, OF _ b2] by simp
        then have "elements (?h2, ?this2) = Inr (take new_size xs @ replicate (new_size - size_f this) d)"
          using grow False array xs by simp
        ultimately show ?thesis using False by auto
      qed
    next
      case shrink: False
      let ?this2 = "this\<lparr>size_f := new_size\<rparr>"
      have r: "Resize d new_size (h, this) = Inr (h, ?this2)"
        using False shrink by (simp add: Resize_def)
      from wf have "well_formed (h, ?this2) \<and> elements (h, ?this2) = Inr (take new_size xs)"
      proof (cases rule: well_formedE)
        case null
        with shrink el show ?thesis by (simp add: well_formed_null elements_null)
      next
        case (array a arr)
        have xs: "xs = take (size_f this) arr" using el array by (simp add: elements_array)
        have "well_formed (h, ?this2)"
          using shrink array by (intro well_formed_array [OF _ array(2)]) simp_all
        moreover have "elements (h, ?this2) = Inr (take new_size arr)"
          using shrink array elements_array [of ?this2 a, OF _ array(2)] by simp
        ultimately show ?thesis using xs shrink by (simp add: min_def)
      qed
      with r shrink False show ?thesis by auto
    qed
  qed
qed



text \<open>
  C4. On a well-formed vector holding \<open>xs\<close>, \<^verbatim>\<open>Resize(new_size)\<close> returns with size
  \<open>new_size\<close>; the capacity becomes exactly \<open>new_size\<close> when that exceeds the old capacity
  and is unchanged otherwise; the vector then holds the first \<open>new_size\<close> elements of \<open>xs\<close>
  followed by \<open>new_size - size\<close> copies of the default value \<open>d\<close>: growing keeps all of
  \<open>xs\<close> and fills the new slots with \<open>d\<close>, shrinking keeps the prefix.
\<close>

theorem Resize_spec:
  assumes wf: "well_formed (h, this)" and el: "elements (h, this) = Inr xs"
  shows "\<exists>h' this'. Resize d new_size (h, this) = Inr (h', this')
     \<and> GetSize this' = new_size
     \<and> GetCapacity this' = (if new_size > GetCapacity this then new_size else GetCapacity this)
     \<and> elements (h', this') = Inr (take new_size xs @ replicate (new_size - GetSize this) d)
     \<and> well_formed (h', this')"
  unfolding GetSize_def GetCapacity_def using wf el by (rule Resize_ok)

theorem Resize_spec_witness:
  "well_formed ([Some [1, 2, 3, 4 :: int]], \<lparr>ptr_f = \<lparr>raw_ptr_f = Ptr 0 0\<rparr>, size_f = 4, capacity_f = 4\<rparr>)
   \<and> elements ([Some [1, 2, 3, 4 :: int]], \<lparr>ptr_f = \<lparr>raw_ptr_f = Ptr 0 0\<rparr>, size_f = 4, capacity_f = 4\<rparr>)
       = Inr [1, 2, 3, 4]
   \<and> Resize 0 2 ([Some [1, 2, 3, 4 :: int]], \<lparr>ptr_f = \<lparr>raw_ptr_f = Ptr 0 0\<rparr>, size_f = 4, capacity_f = 4\<rparr>)
       = Inr ([Some [1, 2, 3, 4]], \<lparr>ptr_f = \<lparr>raw_ptr_f = Ptr 0 0\<rparr>, size_f = 2, capacity_f = 4\<rparr>)
   \<and> elements ([Some [1, 2, 3, 4 :: int]], \<lparr>ptr_f = \<lparr>raw_ptr_f = Ptr 0 0\<rparr>, size_f = 2, capacity_f = 4\<rparr>)
       = Inr [1, 2]
   \<and> (\<exists>h' this'. Resize 0 4 ([Some [1, 2, 3, 4 :: int]],
          \<lparr>ptr_f = \<lparr>raw_ptr_f = Ptr 0 0\<rparr>, size_f = 2, capacity_f = 4\<rparr>) = Inr (h', this')
        \<and> GetSize this' = 4 \<and> GetCapacity this' = 4 \<and> elements (h', this') = Inr [1, 2, 0, 0])"
proof -
  let ?h = "[Some [1, 2, 3, 4 :: int]]"
  let ?v4 = "\<lparr>ptr_f = \<lparr>raw_ptr_f = Ptr 0 0\<rparr>, size_f = 4, capacity_f = 4\<rparr>"
  let ?v2 = "\<lparr>ptr_f = \<lparr>raw_ptr_f = Ptr 0 0\<rparr>, size_f = 2, capacity_f = 4\<rparr>"
  have wf4: "well_formed (?h, ?v4)" by code_simp
  have el4: "elements (?h, ?v4) = Inr [1, 2, 3, 4]" by code_simp
  have r: "Resize 0 2 (?h, ?v4) = Inr (?h, ?v2)" by code_simp
  have wf2: "well_formed (?h, ?v2)" by code_simp
  have el2: "elements (?h, ?v2) = Inr [1, 2]" by code_simp
  from Resize_spec [OF wf2 el2, of 0 4] wf4 el4 r el2 show ?thesis
    by (auto simp: GetSize_def GetCapacity_def numeral_2_eq_2)
qed

section \<open>Insert and Erase\<close>

text \<open>A position in \<^verbatim>\<open>[begin(), end()]\<close> is \<^verbatim>\<open>begin() + p\<close> for some \<open>p \<le> size\<close>.\<close>

lemma position_cases:
  assumes wf: "well_formed (h, this)" and e: "end_it this = Inr e"
    and le: "ptr_le (begin_it this) pos" "ptr_le pos e"
  obtains (null) "raw_ptr_f (ptr_f this) = Null" "pos = Null" "size_f this = 0"
  | (array) a p where "raw_ptr_f (ptr_f this) = Ptr a 0" "pos = Ptr a p" "p \<le> size_f this"
  using wf
proof (cases rule: well_formedE)
  case null
  with le have "pos = Null"
    by (auto simp: begin_it_def Get_def ptr_le_def split: pointer.splits)
  with null show ?thesis using that(1) by simp
next
  case (array a xs)
  with e have "e = Ptr a (size_f this)" by (simp add: end_it_def Get_def)
  with le array(1) obtain p where "pos = Ptr a p" "p \<le> size_f this"
    by (auto simp: begin_it_def Get_def ptr_le_def split: pointer.splits)
  with array show ?thesis using that(2) by simp
qed

text \<open>The shift of \<^verbatim>\<open>Insert\<close>, once the buffer has room: the elements from \<open>p\<close> on move one
  slot to the right, and slot \<open>p\<close> keeps its old value.\<close>

lemma Insert_shift:
  assumes b: "block h a = Some arr" and p: "p \<le> n" and n: "n < length arr"
  shows "std_copy_backward (Ptr a p) (Ptr a n) (Ptr a (n + 1)) h
         = Inr (Ptr a (p + 1),
                h[a := Some (take (p + 1) arr @ take (n - p) (drop p arr) @ drop (n + 1) arr)])"
proof -
  let ?mid = "take (p + 1) arr @ take (n - p) (drop p arr) @ drop (p + (n - p) + 1) arr"
  have "copy_backward_loop (n - p) (Ptr a (p + (n - p))) (Ptr a (p + (n - p) + 1)) h
      = Inr (Ptr a (p + 1), h[a := Some ?mid])"
    using p n by (intro copy_backward_loop_right [OF b]) simp
  then show ?thesis
    using p by (simp add: std_copy_backward_def distance_Ptr)
qed

text \<open>
  \<^verbatim>\<open>Insert\<close> of a live object that is not an element of a full vector. The value \<open>y\<close>
  written at the position is the one the reference holds after the shift: the value \<open>x\<close>
  it had at the call, unless it refers to an element behind the position, which the shift
  has overwritten with its left neighbour.
\<close>

lemma Insert_ok:
  assumes wf: "well_formed (h, this)" and el: "elements (h, this) = Inr xs"
    and e: "end_it this = Inr e" and le: "ptr_le (begin_it this) pos" "ptr_le pos e"
    and rd: "read_ref h v = Inr x"
    and al: "refers_into this v \<Longrightarrow> size_f this \<noteq> capacity_f this"
  obtains p it h' this' y where
    "distance (begin_it this) pos = Inr p" "p \<le> size_f this"
    "Insert d pos v (h, this) = Inr (it, h', this')"
    "well_formed (h', this')"
    "elements (h', this') = Inr (take p xs @ y # drop p xs)"
    "size_f this' = size_f this + 1"
    "\<exists>b. raw_ptr_f (ptr_f this') = Ptr b 0 \<and> it = Ptr b p"
    "\<not> refers_into this v \<Longrightarrow> y = x"
    "\<And>a j. raw_ptr_f (ptr_f this) = Ptr a 0 \<Longrightarrow> v = Element (Ptr a j) \<Longrightarrow> j < size_f this
        \<Longrightarrow> y = xs ! (if j \<le> p then j else j - 1)"
proof -
  have len: "length xs = size_f this" using wf el by (rule elements_length)
  obtain p where dist: "distance (begin_it this) pos = Inr p" and p: "p \<le> size_f this"
    using wf e le
    by (cases rule: position_cases) (auto simp: begin_it_def Get_def distance_Ptr)
  text \<open>After the optional \<^verbatim>\<open>Reserve\<close> the vector has room for one more element.\<close>
  obtain h1 this1 b arr where
    grow: "(if size_f this = capacity_f this
            then Reserve d (if capacity_f this = 0 then 1 else capacity_f this * 2) (h, this)
            else Inr (h, this)) = Inr (h1, this1)"
    and raw: "raw_ptr_f (ptr_f this1) = Ptr b 0" and blk: "block h1 b = Some arr"
    and cap: "length arr = capacity_f this1" and sz: "size_f this1 = size_f this"
    and room: "size_f this < capacity_f this1" and xs: "xs = take (size_f this) arr"
    and frame: "\<And>c. Ptr c 0 \<noteq> raw_ptr_f (ptr_f this) \<Longrightarrow> c < length h
        \<Longrightarrow> block h1 c = block h c \<and> c \<noteq> b"
    and inplace: "size_f this \<noteq> capacity_f this \<Longrightarrow> h1 = h \<and> raw_ptr_f (ptr_f this) = Ptr b 0"
  proof (cases "size_f this = capacity_f this")
    case True
    let ?n = "if capacity_f this = 0 then 1 else capacity_f this * 2"
    let ?this1 = "this\<lparr>ptr_f := \<lparr>raw_ptr_f = Ptr (length h) 0\<rparr>, capacity_f := ?n\<rparr>"
    have n: "capacity_f this < ?n" by simp
    obtain h1 where r: "Reserve d ?n (h, this) = Inr (h1, ?this1)"
      and b: "block h1 (length h) = Some (xs @ replicate (?n - size_f this) d)"
      and fr: "\<And>c. Ptr c 0 \<noteq> raw_ptr_f (ptr_f this) \<Longrightarrow> c \<noteq> length h \<Longrightarrow> block h1 c = block h c"
      using Reserve_grow [OF wf el n, of d] by blast
    have "block h1 c = block h c \<and> c \<noteq> length h"
      if "Ptr c 0 \<noteq> raw_ptr_f (ptr_f this)" "c < length h" for c
      using that fr [of c] by simp
    then show ?thesis
      using True r b len
      by (intro that [of h1 ?this1 "length h" "xs @ replicate (?n - size_f this) d"])
        (simp_all split: if_splits)
  next
    case False
    from wf show ?thesis
    proof (cases rule: well_formedE)
      case null
      with False show ?thesis by simp
    next
      case (array a arr)
      show ?thesis
        using False array el
        by (intro that [of h this a arr]) (auto simp: elements_array)
    qed
  qed
  let ?n = "size_f this"
  let ?mid = "take (p + 1) arr @ take (?n - p) (drop p arr) @ drop (?n + 1) arr"
  let ?h2 = "h1[b := Some ?mid]"
  let ?this2 = "this1\<lparr>size_f := size_f this1 + 1\<rparr>"
  have n: "?n < length arr" using room cap by simp
  have cb: "std_copy_backward (Ptr b p) (Ptr b ?n) (Ptr b (?n + 1)) h1 = Inr (Ptr b (p + 1), ?h2)"
    using blk p n by (rule Insert_shift)
  have b2: "block ?h2 b = Some ?mid" using blk by (simp add: block_SomeD block_update_same)
  have lmid: "length ?mid = length arr" using p n by simp
  text \<open>The reference is read in the heap the shift has left.\<close>
  obtain y where rd2: "read_ref ?h2 v = Inr y" and yx: "\<not> refers_into this v \<Longrightarrow> y = x"
    and yj: "\<And>a j. raw_ptr_f (ptr_f this) = Ptr a 0 \<Longrightarrow> v = Element (Ptr a j) \<Longrightarrow> j < ?n
        \<Longrightarrow> y = xs ! (if j \<le> p then j else j - 1)"
  proof (cases "refers_into this v")
    case True
    then obtain c j i where v: "v = Element (Ptr c j)" and c: "raw_ptr_f (ptr_f this) = Ptr c i"
      by (rule refers_intoE)
    from al [OF True] inplace have h1: "h1 = h" and rb: "raw_ptr_f (ptr_f this) = Ptr b 0" by simp_all
    from c rb have cb: "c = b" by simp
    from rd v cb blk h1 have j: "j < length arr"
      by (auto simp: load_def split: if_splits)
    then have ld: "read_ref ?h2 v = Inr (?mid ! j)"
      using v cb lmid load_Ptr [OF b2, of j] by simp
    have "?mid ! j = xs ! (if j \<le> p then j else j - 1)" if "j < ?n"
      using that p n xs by (auto simp: nth_append min_def)
    with ld True v cb rb show ?thesis by (intro that [of "?mid ! j"]) auto
  next
    case False
    have "read_ref ?h2 v = Inr x"
      using rd
    proof (rule read_ref_frame)
      fix c j assume v: "v = Element (Ptr c j)"
      from rd v have "c < length h" by (auto dest: load_live)
      moreover from False have "Ptr c 0 \<noteq> raw_ptr_f (ptr_f this)"
        unfolding v by (rule not_refers_into)
      ultimately have "block h1 c = block h c \<and> c \<noteq> b" by (rule frame [rotated])
      then show "block ?h2 c = block h c" by (simp add: block_update_other)
    qed
    moreover have "False" if "raw_ptr_f (ptr_f this) = Ptr a 0" "v = Element (Ptr a j)" for a j
      using that False by (simp add: refers_into_Element)
    ultimately show ?thesis by (intro that [of x]) auto
  qed
  let ?new = "take p arr @ y # take (?n - p) (drop p arr) @ drop (?n + 1) arr"
  let ?h3 = "h1[b := Some ?new]"
  have new: "?mid[p := y] = ?new"
    using p n by (simp add: take_Suc_conv_app_nth list_update_append)
  have lt: "p < length ?mid" using p n by simp
  have st: "store ?h2 (Ptr b p) y = Inr ?h3"
    using store_Ptr [OF b2 lt, of y] new by simp
  have ins: "Insert d pos v (h, this) = Inr (Ptr b p, ?h3, ?this2)"
    unfolding Insert_def using e le dist grow raw sz cb rd2 st
    by (simp add: begin_it_def end_it_def Get_def ptr_sub_Ptr)
  have b3: "block ?h3 b = Some ?new" using blk by (simp add: block_SomeD block_update_same)
  have wf3: "well_formed (?h3, ?this2)"
    using raw cap sz room p n by (intro well_formed_array [OF _ b3]) simp_all
  have "elements (?h3, ?this2) = Inr (take (?n + 1) ?new)"
    using raw sz p n elements_array [of ?this2 b, OF _ b3] by simp
  moreover have "take (?n + 1) ?new = take p arr @ y # take (?n - p) (drop p arr)"
    using p n by (simp add: Suc_diff_le)
  moreover have "take p xs @ y # drop p xs = take p arr @ y # take (?n - p) (drop p arr)"
    using p xs by (simp add: min_def drop_take)
  ultimately have el3: "elements (?h3, ?this2) = Inr (take p xs @ y # drop p xs)"
    by simp
  have sz3: "size_f ?this2 = size_f this + 1" using sz by simp
  have it3: "\<exists>c. raw_ptr_f (ptr_f ?this2) = Ptr c 0 \<and> Ptr b p = Ptr c p" using raw by simp
  from dist p ins wf3 el3 sz3 it3 yx yj show ?thesis by (rule that)
qed

text \<open>\<^verbatim>\<open>Insert\<close> of a reference into the array of a full vector, at a valid position,
  reads the array \<^verbatim>\<open>Reserve\<close> has freed.\<close>

lemma Insert_own_element_undefined:
  assumes wf: "well_formed (h, this)"
    and e: "end_it this = Inr e" and le: "ptr_le (begin_it this) pos" "ptr_le pos e"
    and full: "size_f this = capacity_f this" and own: "refers_into this v"
  shows "Insert d pos v (h, this) = Inl UndefinedBehaviour"
proof -
  from own obtain c j i where v: "v = Element (Ptr c j)" and raw: "raw_ptr_f (ptr_f this) = Ptr c i"
    by (rule refers_intoE)
  from wf raw have raw0: "raw_ptr_f (ptr_f this) = Ptr c 0"
    by (cases rule: well_formedE) simp_all
  from wf obtain xs where el: "elements (h, this) = Inr xs" and len: "length xs = size_f this"
    using well_formed_elements by blast
  from wf e le raw0 obtain p where pos: "pos = Ptr c p" and p: "p \<le> size_f this"
    by (cases rule: position_cases) simp_all
  let ?n = "if capacity_f this = 0 then 1 else capacity_f this * 2"
  let ?b = "length h"
  let ?this1 = "this\<lparr>ptr_f := \<lparr>raw_ptr_f = Ptr ?b 0\<rparr>, capacity_f := ?n\<rparr>"
  let ?arr = "xs @ replicate (?n - size_f this) d"
  have n: "capacity_f this < ?n" by simp
  obtain h1 where r: "Reserve d ?n (h, this) = Inr (h1, ?this1)"
    and blk: "block h1 ?b = Some ?arr" and gone: "block h1 c = None"
    using Reserve_grow_frees [OF wf el n, of d] raw0 by metis
  have lt: "size_f this < length ?arr" using full len by (simp split: if_splits)
  let ?mid = "take (p + 1) ?arr @ take (size_f this - p) (drop p ?arr) @ drop (size_f this + 1) ?arr"
  have cb: "std_copy_backward (Ptr ?b p) (Ptr ?b (size_f this)) (Ptr ?b (size_f this + 1)) h1
      = Inr (Ptr ?b (p + 1), h1[?b := Some ?mid])"
    using blk p lt by (rule Insert_shift)
  have live: "c < length h" using wf raw0 by (cases rule: well_formedE) (auto dest: block_SomeD)
  then have "block (h1[?b := Some ?mid]) c = None"
    using gone by (simp add: block_update_other)
  with v have rd: "read_ref (h1[?b := Some ?mid]) v = Inl UndefinedBehaviour"
    by (simp add: load_def)
  from full r have grow: "(if size_f this = capacity_f this
      then Reserve d (if capacity_f this = 0 then 1 else capacity_f this * 2) (h, this)
      else Inr (h, this)) = Inr (h1, ?this1)"
    by simp
  from pos p raw0 have dist: "distance (begin_it this) pos = Inr p"
    by (simp add: begin_it_def Get_def distance_Ptr)
  show ?thesis
    unfolding Insert_def using e le dist grow cb rd
    by (simp add: begin_it_def end_it_def Get_def ptr_sub_Ptr)
qed

text \<open>What \<^verbatim>\<open>Insert\<close> does when it returns does not depend on where the value came
  from.\<close>

lemma Insert_reads:
  assumes "Insert d pos v (h, this) = Inr r"
  obtains x where "Insert d pos (Object x) (h, this) = Inr r"
proof -
  from assms obtain e pos_i h1 this1 first e2 lst r' h2 it x h3 where
    "end_it this = Inr e" "ptr_le (begin_it this) pos \<and> ptr_le pos e"
    "distance (begin_it this) pos = Inr pos_i"
    "(if size_f this = capacity_f this
      then Reserve d (if capacity_f this = 0 then 1 else capacity_f this * 2) (h, this)
      else Inr (h, this)) = Inr (h1, this1)"
    "ptr_add (begin_it (this1\<lparr>size_f := size_f this1 + 1\<rparr>)) pos_i = Inr first"
    "end_it (this1\<lparr>size_f := size_f this1 + 1\<rparr>) = Inr e2" "ptr_sub e2 1 = Inr lst"
    "std_copy_backward first lst e2 h1 = Inr (r', h2)" "ptr_sub r' 1 = Inr it"
    "read_ref h2 v = Inr x" "store h2 it x = Inr h3"
    "r = (it, h3, this1\<lparr>size_f := size_f this1 + 1\<rparr>)"
    unfolding Insert_def
    by (auto simp: and_then_def assert_def Let_def split: sum.splits prod.splits if_splits)
  then have "Insert d pos (Object x) (h, this) = Inr r"
    unfolding Insert_def by (simp add: Let_def)
  then show ?thesis by (rule that)
qed


lemma Erase_ok:
  assumes raw: "raw_ptr_f (ptr_f this) = Ptr a 0" and wf: "well_formed (h, this)"
    and el: "elements (h, this) = Inr xs" and p: "p < size_f this"
  obtains h' where
    "Erase (Ptr a p) (h, this) = Inr (Ptr a p, h', this\<lparr>size_f := size_f this - 1\<rparr>)"
    "well_formed (h', this\<lparr>size_f := size_f this - 1\<rparr>)"
    "elements (h', this\<lparr>size_f := size_f this - 1\<rparr>) = Inr (take p xs @ drop (p + 1) xs)"
  using wf
proof (cases rule: well_formedE)
  case null
  with raw show ?thesis by simp
next
  case (array a' arr)
  with raw have a': "a' = a" by simp
  note blk = array(2) [unfolded a']
  let ?n = "size_f this - (p + 1)"
  let ?new = "take p arr @ take ?n (drop (p + 1) arr) @ drop (p + ?n) arr"
  let ?h' = "h[a := Some ?new]"
  let ?this' = "this\<lparr>size_f := size_f this - 1\<rparr>"
  have xs: "xs = take (size_f this) arr" using el raw blk array by (simp add: elements_array)
  have "copy_loop ?n (Ptr a (p + 1)) (Ptr a p) h = Inr (Ptr a (p + ?n), ?h')"
    using p array by (intro copy_loop_left [OF blk]) simp
  then have "Erase (Ptr a p) (h, this) = Inr (Ptr a p, ?h', ?this')"
    using raw p
    by (simp add: Erase_def end_it_def begin_it_def Get_def ptr_le_def std_move_def std_copy_def
        distance_Ptr)
  moreover have b2: "block ?h' a = Some ?new" using blk by (simp add: block_SomeD block_update_same)
  have "well_formed (?h', ?this')"
    using raw p array by (intro well_formed_array [OF _ b2]) simp_all
  moreover have "elements (?h', ?this') = Inr (take (size_f this - 1) ?new)"
    using raw p array elements_array [of ?this' a, OF _ b2] by simp
  moreover have "take (size_f this - 1) ?new = take p arr @ take ?n (drop (p + 1) arr)"
    using p array by simp
  moreover have "take p xs @ drop (p + 1) xs = take p arr @ take ?n (drop (p + 1) arr)"
    using p xs by (simp add: min_def drop_take)
  ultimately show ?thesis using that by simp
qed


text \<open>
  C6. Take a well-formed vector holding \<open>xs\<close>, a position \<open>pos\<close> with
  \<^verbatim>\<open>begin() <= pos <= end()\<close>, at offset \<open>p\<close> from \<^verbatim>\<open>begin()\<close>, and an argument \<open>v\<close> that
  is a live object of value \<open>x\<close> and does not refer into the array of the vector itself
  (to one of its elements) while the vector is full (\<^verbatim>\<open>size_ == capacity_\<close>). Then
  \<^verbatim>\<open>Insert(pos, v)\<close> returns the iterator at offset \<open>p\<close> of the (possibly reallocated)
  buffer, the vector holds \<open>xs\<close> with one value \<open>y\<close> inserted at \<open>p\<close> and its size is one
  more; \<^verbatim>\<open>Erase\<close> at that iterator returns, and
  the vector holds \<open>xs\<close> again, with the original size. The value inserted is \<open>x\<close> when
  \<open>v\<close> is not an element of the vector; when \<open>v\<close> is the element \<^verbatim>\<open>v[j]\<close> it is the value
  that slot holds after the shift: \<open>xs ! j\<close> for \<open>j \<le> p\<close>, the left neighbour
  \<open>xs ! (j - 1)\<close> for \<open>j > p\<close>.
\<close>

theorem Insert_Erase_roundtrip:
  assumes wf: "well_formed (h, this)" and el: "elements (h, this) = Inr xs"
    and e: "end_it this = Inr e" and le: "ptr_le (begin_it this) pos" "ptr_le pos e"
    and rd: "read_ref h v = Inr x"
    and al: "refers_into this v \<longrightarrow> GetSize this \<noteq> GetCapacity this"
  shows "\<exists>p it h1 this1 h2 this2 y.
       distance (begin_it this) pos = Inr p
     \<and> Insert d pos v (h, this) = Inr (it, h1, this1)
     \<and> distance (begin_it this1) it = Inr p
     \<and> elements (h1, this1) = Inr (take p xs @ y # drop p xs)
     \<and> (\<not> refers_into this v \<longrightarrow> y = x)
     \<and> (\<forall>j q. subscript j this = Inr q \<and> v = Element q
            \<longrightarrow> y = xs ! (if j \<le> p then j else j - 1))
     \<and> GetSize this1 = GetSize this + 1
     \<and> Erase it (h1, this1) = Inr (it, h2, this2)
     \<and> elements (h2, this2) = Inr xs
     \<and> GetSize this2 = GetSize this"
proof -
  have len: "length xs = size_f this" using wf el by (rule elements_length)
  from al have al': "refers_into this v \<Longrightarrow> size_f this \<noteq> capacity_f this"
    by (simp add: GetSize_def GetCapacity_def)
  obtain p it h1 this1 b y where dist: "distance (begin_it this) pos = Inr p" and p: "p \<le> size_f this"
    and ins: "Insert d pos v (h, this) = Inr (it, h1, this1)"
    and wf1: "well_formed (h1, this1)"
    and el1: "elements (h1, this1) = Inr (take p xs @ y # drop p xs)"
    and sz1: "size_f this1 = size_f this + 1"
    and raw1: "raw_ptr_f (ptr_f this1) = Ptr b 0" and it: "it = Ptr b p"
    and yx: "\<not> refers_into this v \<Longrightarrow> y = x"
    and yj: "\<And>a j. raw_ptr_f (ptr_f this) = Ptr a 0 \<Longrightarrow> v = Element (Ptr a j) \<Longrightarrow> j < size_f this
        \<Longrightarrow> y = xs ! (if j \<le> p then j else j - 1)"
    using Insert_ok [OF wf el e le rd al', of d] by metis
  have own: "y = xs ! (if j \<le> p then j else j - 1)"
    if s: "subscript j this = Inr q" and v: "v = Element q" for j q
  proof -
    from s have j: "j < size_f this" and q: "ArrayPtr_subscript (ptr_f this) j = Inr q"
      by (auto simp: subscript_def and_then_def assert_def split: if_splits)
    from wf show ?thesis
    proof (cases rule: well_formedE)
      case null
      with j show ?thesis by simp
    next
      case (array a arr)
      with q have "q = Ptr a j" by (simp add: ArrayPtr_subscript_def)
      with array(1) v j show ?thesis by (intro yj) simp_all
    qed
  qed
  have p1: "p < size_f this1" using p sz1 by simp
  obtain h2 where er: "Erase (Ptr b p) (h1, this1) = Inr (Ptr b p, h2, this1\<lparr>size_f := size_f this1 - 1\<rparr>)"
    and el2: "elements (h2, this1\<lparr>size_f := size_f this1 - 1\<rparr>)
        = Inr (take p (take p xs @ y # drop p xs) @ drop (p + 1) (take p xs @ y # drop p xs))"
    using Erase_ok [OF raw1 wf1 el1 p1] by blast
  have "take p (take p xs @ y # drop p xs) @ drop (p + 1) (take p xs @ y # drop p xs) = xs"
    using p len by (simp add: min_def)
  with el2 have el2': "elements (h2, this1\<lparr>size_f := size_f this1 - 1\<rparr>) = Inr xs" by simp
  have d1: "distance (begin_it this1) it = Inr p"
    using raw1 it by (simp add: begin_it_def Get_def distance_Ptr)
  have sz2: "GetSize (this1\<lparr>size_f := size_f this1 - 1\<rparr>) = GetSize this"
    using sz1 by (simp add: GetSize_def)
  have sz1': "GetSize this1 = GetSize this + 1" using sz1 by (simp add: GetSize_def)
  from own have own': "\<forall>j q. subscript j this = Inr q \<and> v = Element q
            \<longrightarrow> y = xs ! (if j \<le> p then j else j - 1)" by blast
  from yx have yx': "\<not> refers_into this v \<longrightarrow> y = x" by blast
  from dist ins d1 el1 yx' own' sz1' er [folded it] el2' sz2 show ?thesis by blast
qed


theorem Insert_Erase_roundtrip_witness:
  "well_formed ([Some [1, 2, 3 :: int]], \<lparr>ptr_f = \<lparr>raw_ptr_f = Ptr 0 0\<rparr>, size_f = 3, capacity_f = 3\<rparr>)
   \<and> elements ([Some [1, 2, 3 :: int]], \<lparr>ptr_f = \<lparr>raw_ptr_f = Ptr 0 0\<rparr>, size_f = 3, capacity_f = 3\<rparr>)
       = Inr [1, 2, 3]
   \<and> end_it \<lparr>ptr_f = \<lparr>raw_ptr_f = Ptr 0 0\<rparr>, size_f = 3, capacity_f = 3\<rparr> = Inr (Ptr 0 3)
   \<and> ptr_le (begin_it \<lparr>ptr_f = \<lparr>raw_ptr_f = Ptr 0 0\<rparr>, size_f = 3, capacity_f = 3\<rparr>) (Ptr 0 1)
   \<and> ptr_le (Ptr 0 1) (Ptr 0 3)
   \<and> read_ref [Some [1, 2, 3 :: int]] (Object 9) = Inr 9
   \<and> \<not> refers_into \<lparr>ptr_f = \<lparr>raw_ptr_f = Ptr 0 0\<rparr>, size_f = 3, capacity_f = 3\<rparr> (Object (9 :: int))
   \<and> Insert 0 (Ptr 0 1) (Object 9) ([Some [1, 2, 3 :: int]],
        \<lparr>ptr_f = \<lparr>raw_ptr_f = Ptr 0 0\<rparr>, size_f = 3, capacity_f = 3\<rparr>)
       = Inr (Ptr 1 1, [None, Some [1, 9, 2, 3, 0, 0]],
              \<lparr>ptr_f = \<lparr>raw_ptr_f = Ptr 1 0\<rparr>, size_f = 4, capacity_f = 6\<rparr>)
   \<and> (\<exists>h2 this2. Erase (Ptr 1 1) ([None, Some [1, 9, 2, 3, 0, 0 :: int]],
              \<lparr>ptr_f = \<lparr>raw_ptr_f = Ptr 1 0\<rparr>, size_f = 4, capacity_f = 6\<rparr>) = Inr (Ptr 1 1, h2, this2)
        \<and> elements (h2, this2) = Inr [1, 2, 3] \<and> GetSize this2 = 3)
   \<and> well_formed ([Some [1, 2, 3, 0 :: int]], \<lparr>ptr_f = \<lparr>raw_ptr_f = Ptr 0 0\<rparr>, size_f = 3, capacity_f = 4\<rparr>)
   \<and> elements ([Some [1, 2, 3, 0 :: int]], \<lparr>ptr_f = \<lparr>raw_ptr_f = Ptr 0 0\<rparr>, size_f = 3, capacity_f = 4\<rparr>)
       = Inr [1, 2, 3]
   \<and> end_it \<lparr>ptr_f = \<lparr>raw_ptr_f = Ptr 0 0\<rparr>, size_f = 3, capacity_f = 4\<rparr> = Inr (Ptr 0 3)
   \<and> ptr_le (begin_it \<lparr>ptr_f = \<lparr>raw_ptr_f = Ptr 0 0\<rparr>, size_f = 3, capacity_f = 4\<rparr>) (Ptr 0 0)
   \<and> ptr_le (Ptr 0 0) (Ptr 0 3)
   \<and> subscript 1 \<lparr>ptr_f = \<lparr>raw_ptr_f = Ptr 0 0\<rparr>, size_f = 3, capacity_f = 4\<rparr> = Inr (Ptr 0 1)
   \<and> read_ref [Some [1, 2, 3, 0 :: int]] (Element (Ptr 0 1)) = Inr 2
   \<and> refers_into \<lparr>ptr_f = \<lparr>raw_ptr_f = Ptr 0 0\<rparr>, size_f = 3, capacity_f = 4\<rparr>
        (Element (Ptr 0 1) :: int cref)
   \<and> GetSize \<lparr>ptr_f = \<lparr>raw_ptr_f = Ptr 0 0\<rparr>, size_f = 3, capacity_f = 4\<rparr>
        \<noteq> GetCapacity \<lparr>ptr_f = \<lparr>raw_ptr_f = Ptr 0 0\<rparr>, size_f = 3, capacity_f = 4\<rparr>
   \<and> Insert 0 (Ptr 0 0) (Element (Ptr 0 1)) ([Some [1, 2, 3, 0 :: int]],
        \<lparr>ptr_f = \<lparr>raw_ptr_f = Ptr 0 0\<rparr>, size_f = 3, capacity_f = 4\<rparr>)
       = Inr (Ptr 0 0, [Some [1, 1, 2, 3]],
              \<lparr>ptr_f = \<lparr>raw_ptr_f = Ptr 0 0\<rparr>, size_f = 4, capacity_f = 4\<rparr>)
   \<and> (\<exists>h2 this2. Erase (Ptr 0 0) ([Some [1, 1, 2, 3 :: int]],
              \<lparr>ptr_f = \<lparr>raw_ptr_f = Ptr 0 0\<rparr>, size_f = 4, capacity_f = 4\<rparr>) = Inr (Ptr 0 0, h2, this2)
        \<and> elements (h2, this2) = Inr [1, 2, 3] \<and> GetSize this2 = 3)"
proof -
  let ?h = "[Some [1, 2, 3 :: int]]"
  let ?v = "\<lparr>ptr_f = \<lparr>raw_ptr_f = Ptr 0 0\<rparr>, size_f = 3, capacity_f = 3\<rparr>"
  have wf: "well_formed (?h, ?v)" by code_simp
  have el: "elements (?h, ?v) = Inr [1, 2, 3]" by code_simp
  have e: "end_it ?v = Inr (Ptr 0 3)" by code_simp
  have le: "ptr_le (begin_it ?v) (Ptr 0 1)" "ptr_le (Ptr 0 1) (Ptr 0 3)" by code_simp+
  have rd: "read_ref ?h (Object 9) = Inr 9" by code_simp
  have nr: "\<not> refers_into ?v (Object (9 :: int))" by code_simp
  then have al: "refers_into ?v (Object (9 :: int)) \<longrightarrow> GetSize ?v \<noteq> GetCapacity ?v" by simp
  have ins: "Insert 0 (Ptr 0 1) (Object 9) (?h, ?v)
       = Inr (Ptr 1 1, [None, Some [1, 9, 2, 3, 0, 0]],
              \<lparr>ptr_f = \<lparr>raw_ptr_f = Ptr 1 0\<rparr>, size_f = 4, capacity_f = 6\<rparr>)"
    by code_simp
  from Insert_Erase_roundtrip [OF wf el e le rd al, of 0] ins
  have 1: "\<exists>h2 this2. Erase (Ptr 1 1) ([None, Some [1, 9, 2, 3, 0, 0 :: int]],
              \<lparr>ptr_f = \<lparr>raw_ptr_f = Ptr 1 0\<rparr>, size_f = 4, capacity_f = 6\<rparr>) = Inr (Ptr 1 1, h2, this2)
        \<and> elements (h2, this2) = Inr [1, 2, 3] \<and> GetSize this2 = 3"
    by (auto simp: GetSize_def)
  let ?h4 = "[Some [1, 2, 3, 0 :: int]]"
  let ?v4 = "\<lparr>ptr_f = \<lparr>raw_ptr_f = Ptr 0 0\<rparr>, size_f = 3, capacity_f = 4\<rparr>"
  have wf4: "well_formed (?h4, ?v4)" by code_simp
  have el4: "elements (?h4, ?v4) = Inr [1, 2, 3]" by code_simp
  have e4: "end_it ?v4 = Inr (Ptr 0 3)" by code_simp
  have le4: "ptr_le (begin_it ?v4) (Ptr 0 0)" "ptr_le (Ptr 0 0) (Ptr 0 3)" by code_simp+
  have ix4: "subscript 1 ?v4 = Inr (Ptr 0 1)" by code_simp
  have rd4: "read_ref ?h4 (Element (Ptr 0 1)) = Inr 2" by code_simp
  have ri4: "refers_into ?v4 (Element (Ptr 0 1) :: int cref)" by code_simp
  have nf4: "GetSize ?v4 \<noteq> GetCapacity ?v4" by code_simp
  then have al4: "refers_into ?v4 (Element (Ptr 0 1) :: int cref) \<longrightarrow> GetSize ?v4 \<noteq> GetCapacity ?v4"
    by simp
  have ins4: "Insert 0 (Ptr 0 0) (Element (Ptr 0 1)) (?h4, ?v4)
       = Inr (Ptr 0 0, [Some [1, 1, 2, 3]],
              \<lparr>ptr_f = \<lparr>raw_ptr_f = Ptr 0 0\<rparr>, size_f = 4, capacity_f = 4\<rparr>)"
    by code_simp
  from Insert_Erase_roundtrip [OF wf4 el4 e4 le4 rd4 al4, of 0] ins4
  have 2: "\<exists>h2 this2. Erase (Ptr 0 0) ([Some [1, 1, 2, 3 :: int]],
              \<lparr>ptr_f = \<lparr>raw_ptr_f = Ptr 0 0\<rparr>, size_f = 4, capacity_f = 4\<rparr>) = Inr (Ptr 0 0, h2, this2)
        \<and> elements (h2, this2) = Inr [1, 2, 3] \<and> GetSize this2 = 3"
    by (auto simp: GetSize_def)
  from wf el e le rd nr ins 1 wf4 el4 e4 le4 ix4 rd4 ri4 nf4 ins4 2 show ?thesis
    by (intro conjI)
qed

text \<open>
  The call \<^verbatim>\<open>v.Insert(v.begin(), v[1])\<close> on the vector \<open>1, 2, 3\<close>. With capacity 3 the
  vector is full: \<^verbatim>\<open>Reserve\<close> frees the array the argument refers to, and the assignment
  reads it (lemma \<open>Insert_own_element_undefined\<close>). With capacity 4 the argument, of value 2 at the call, is read after the
  shift has overwritten its slot with 1: the vector holds \<open>1, 1, 2, 3\<close>.
\<close>

theorem Insert_own_element:
  "well_formed ([Some [1, 2, 3 :: int]], \<lparr>ptr_f = \<lparr>raw_ptr_f = Ptr 0 0\<rparr>, size_f = 3, capacity_f = 3\<rparr>)
   \<and> elements ([Some [1, 2, 3 :: int]], \<lparr>ptr_f = \<lparr>raw_ptr_f = Ptr 0 0\<rparr>, size_f = 3, capacity_f = 3\<rparr>)
       = Inr [1, 2, 3]
   \<and> begin_it \<lparr>ptr_f = \<lparr>raw_ptr_f = Ptr 0 0\<rparr>, size_f = 3, capacity_f = 3\<rparr> = Ptr 0 0
   \<and> subscript 1 \<lparr>ptr_f = \<lparr>raw_ptr_f = Ptr 0 0\<rparr>, size_f = 3, capacity_f = 3\<rparr> = Inr (Ptr 0 1)
   \<and> read_ref [Some [1, 2, 3 :: int]] (Element (Ptr 0 1)) = Inr 2
   \<and> Insert 0 (Ptr 0 0) (Element (Ptr 0 1)) ([Some [1, 2, 3 :: int]],
        \<lparr>ptr_f = \<lparr>raw_ptr_f = Ptr 0 0\<rparr>, size_f = 3, capacity_f = 3\<rparr>)
       = Inl UndefinedBehaviour
   \<and> well_formed ([Some [1, 2, 3, 0 :: int]], \<lparr>ptr_f = \<lparr>raw_ptr_f = Ptr 0 0\<rparr>, size_f = 3, capacity_f = 4\<rparr>)
   \<and> elements ([Some [1, 2, 3, 0 :: int]], \<lparr>ptr_f = \<lparr>raw_ptr_f = Ptr 0 0\<rparr>, size_f = 3, capacity_f = 4\<rparr>)
       = Inr [1, 2, 3]
   \<and> read_ref [Some [1, 2, 3, 0 :: int]] (Element (Ptr 0 1)) = Inr 2
   \<and> Insert 0 (Ptr 0 0) (Element (Ptr 0 1)) ([Some [1, 2, 3, 0 :: int]],
        \<lparr>ptr_f = \<lparr>raw_ptr_f = Ptr 0 0\<rparr>, size_f = 3, capacity_f = 4\<rparr>)
       = Inr (Ptr 0 0, [Some [1, 1, 2, 3]],
              \<lparr>ptr_f = \<lparr>raw_ptr_f = Ptr 0 0\<rparr>, size_f = 4, capacity_f = 4\<rparr>)"
  by code_simp

section \<open>Copying\<close>

lemma ArrayPtr_update [simp]: "(p :: ArrayPtr)\<lparr>raw_ptr_f := x\<rparr> = \<lparr>raw_ptr_f = x\<rparr>"
  by (cases p) simp

text \<open>The first half of both copy operations: a new array of \<open>size\<close> elements, filled from
  the source. Nothing is allocated for an empty source.\<close>

lemma copy_to_new_array:
  assumes wf: "well_formed (h, sv)" and el: "elements (h, sv) = Inr xs"
  obtains e tmp h1 r where
    "ArrayPtr_size d (size_f sv) h = (tmp, h1)" "end_it sv = Inr e"
    "std_copy (begin_it sv) e (raw_ptr_f tmp) h1
       = Inr (r, if size_f sv = 0 then h else h @ [Some xs])"
    "raw_ptr_f tmp = (if size_f sv = 0 then Null else Ptr (length h) 0)"
proof (cases "size_f sv = 0")
  case True
  obtain e where e: "end_it sv = Inr e" "distance (begin_it sv) e = Inr 0"
    using wf True
    by (cases rule: well_formedE) (auto simp: end_it_def begin_it_def Get_def distance_Ptr)
  show ?thesis
    using True e
    by (intro that [of "\<lparr>raw_ptr_f = Null\<rparr>" h e Null]) (simp_all add: ArrayPtr_size_def std_copy_def)
next
  case False
  from wf show ?thesis
  proof (cases rule: well_formedE)
    case null
    with False show ?thesis by simp
  next
    case (array a arr)
    let ?b = "length h"
    let ?n = "size_f sv"
    let ?h1 = "h @ [Some (replicate ?n d)]"
    have xs: "xs = take ?n arr" using el array by (simp add: elements_array)
    have b1: "block ?h1 a = Some arr" using array(2) by (rule block_append_old)
    have b2: "block ?h1 ?b = Some (replicate ?n d)" by simp
    have a: "a \<noteq> ?b" using array(2) by (auto dest: block_SomeD)
    have "copy_loop ?n (Ptr a 0) (Ptr ?b 0) ?h1
        = Inr (Ptr ?b (0 + ?n), ?h1[?b := Some (take 0 (replicate ?n d) @ take ?n (drop 0 arr)
             @ drop (0 + ?n) (replicate ?n d))])"
      using array by (intro copy_loop_other [OF b1 b2 a]) simp_all
    then have "copy_loop ?n (Ptr a 0) (Ptr ?b 0) ?h1 = Inr (Ptr ?b ?n, h @ [Some xs])"
      using xs by simp
    then show ?thesis
      using False array
      by (intro that [of "\<lparr>raw_ptr_f = Ptr ?b 0\<rparr>" ?h1 "Ptr a ?n" "Ptr ?b ?n"])
        (simp_all add: ArrayPtr_size_def new_array_def end_it_def begin_it_def Get_def
          std_copy_def distance_Ptr)
  qed
qed

lemma SimpleVector_copy_ok:
  assumes wf: "well_formed (h, sv)" and el: "elements (h, sv) = Inr xs"
  obtains h' this' where
    "SimpleVector_copy d sv h = Inr (h', this')"
    "well_formed (h', this')" "elements (h', this') = Inr xs"
    "size_f this' = size_f sv" "capacity_f this' = size_f sv"
    "h' = (if size_f sv = 0 then h else h @ [Some xs])"
    "raw_ptr_f (ptr_f this') = (if size_f sv = 0 then Null else Ptr (length h) 0)"
proof -
  have len: "length xs = size_f sv" using wf el by (rule elements_length)
  obtain e tmp h1 r where t: "ArrayPtr_size d (size_f sv) h = (tmp, h1)" and e: "end_it sv = Inr e"
    and c: "std_copy (begin_it sv) e (raw_ptr_f tmp) h1
       = Inr (r, if size_f sv = 0 then h else h @ [Some xs])"
    and raw: "raw_ptr_f tmp = (if size_f sv = 0 then Null else Ptr (length h) 0)"
    using copy_to_new_array [OF wf el, of d] by metis
  let ?h' = "if size_f sv = 0 then h else h @ [Some xs]"
  let ?this' = "\<lparr>ptr_f = \<lparr>raw_ptr_f = raw_ptr_f tmp\<rparr>, size_f = size_f sv, capacity_f = size_f sv\<rparr>"
  have "SimpleVector_copy d sv h = Inr (?h', ?this')"
    using t e c
    by (simp add: SimpleVector_copy_def SimpleVector_default_def ArrayPtr_default_def
        ArrayPtr_swap_def Get_def ArrayPtr_dtor_def delete_array_def)
  moreover have "well_formed (?h', ?this')"
    using raw len by (simp add: well_formed_def invariant_def)
  moreover have "elements (?h', ?this') = Inr xs"
  proof (cases "size_f sv = 0")
    case True
    with raw len show ?thesis by (simp add: elements_null)
  next
    case False
    then have "elements (h @ [Some xs], ?this') = Inr (take (size_f ?this') xs)"
      using raw len by (intro elements_array [of _ "length h"]) simp_all
    with False len show ?thesis by simp
  qed
  ultimately show ?thesis using that [of ?h' ?this'] raw by simp
qed

lemma copy_assign_ok:
  assumes wf: "well_formed (h, objs rhs)" and el: "elements (h, objs rhs) = Inr xs"
    and wft: "well_formed (h, objs this)"
  obtains h' this' where
    "copy_assign d this rhs (h, objs) = Inr (h', objs(this := this'))"
    "well_formed (h', this')" "elements (h', this') = Inr xs"
    "size_f this' = size_f (objs rhs)" "capacity_f this' = size_f (objs rhs)"
    "\<And>c. Ptr c 0 \<noteq> raw_ptr_f (ptr_f (objs this)) \<Longrightarrow> c < length h \<Longrightarrow> block h' c = block h c"
    "raw_ptr_f (ptr_f this') = (if size_f (objs rhs) = 0 then Null else Ptr (length h) 0)"
proof -
  let ?n = "size_f (objs rhs)"
  have len: "length xs = ?n" using wf el by (rule elements_length)
  obtain e tmp h1 r where t: "ArrayPtr_size d ?n h = (tmp, h1)" and e: "end_it (objs rhs) = Inr e"
    and c: "std_copy (begin_it (objs rhs)) e (raw_ptr_f tmp) h1
       = Inr (r, if ?n = 0 then h else h @ [Some xs])"
    and raw: "raw_ptr_f tmp = (if ?n = 0 then Null else Ptr (length h) 0)"
    using copy_to_new_array [OF wf el, of d] by metis
  let ?h2 = "if ?n = 0 then h else h @ [Some xs]"
  let ?old = "raw_ptr_f (ptr_f (objs this))"
  let ?this' = "(objs this)\<lparr>ptr_f := \<lparr>raw_ptr_f = raw_ptr_f tmp\<rparr>, size_f := ?n, capacity_f := ?n\<rparr>"
  have keep: "block ?h2 c = block h c" if "c < length h" for c
    using that by (simp add: block_append_lt)
  obtain h3 where del: "delete_array ?old ?h2 = Inr h3"
    and fr: "\<And>c. Ptr c 0 \<noteq> ?old \<Longrightarrow> c < length h \<Longrightarrow> block h3 c = block h c"
    and new: "block h3 (length h) = block ?h2 (length h)"
    using wft
  proof (cases rule: well_formedE)
    case null
    then show ?thesis using that [of ?h2] keep by (simp add: delete_array_def)
  next
    case (array a arr)
    then have a: "a < length h" by (simp add: block_SomeD)
    with array have "block ?h2 a = Some arr" by (simp add: keep)
    then have "delete_array ?old ?h2 = Inr (?h2[a := None])"
      using array by (simp add: delete_array_def)
    moreover have "block (?h2[a := None]) c = block h c" if "Ptr c 0 \<noteq> ?old" "c < length h" for c
      using that array keep by (simp add: block_update_other)
    moreover have "block (?h2[a := None]) (length h) = block ?h2 (length h)"
      using a by (simp add: block_update_other)
    ultimately show ?thesis using that [of "?h2[a := None]"] by blast
  qed
  have sz: "size_f ((objs(this := (objs this)\<lparr>ptr_f := p\<rparr>)) rhs) = ?n" for p
    by simp
  have "copy_assign d this rhs (h, objs) = Inr (h3, objs(this := ?this'))"
    using t e c del
    by (simp add: copy_assign_def ArrayPtr_swap_def Get_def ArrayPtr_dtor_def Let_def)
  moreover have wf': "well_formed (h3, ?this') \<and> elements (h3, ?this') = Inr xs"
  proof (cases "?n = 0")
    case True
    with raw len show ?thesis by (simp add: elements_null well_formed_null)
  next
    case False
    then have b: "block h3 (length h) = Some xs" using new by simp
    have "well_formed (h3, ?this')"
      using False raw len by (intro well_formed_array [OF _ b]) simp_all
    moreover have "elements (h3, ?this') = Inr (take (size_f ?this') xs)"
      using False raw len by (intro elements_array [OF _ b]) simp_all
    ultimately show ?thesis using len by simp
  qed
  ultimately show ?thesis using that [of h3 ?this'] fr raw by simp
qed



text \<open>\<^verbatim>\<open>PushBack\<close> on a vector \<open>c\<close> leaves a vector \<open>s\<close> with another array as it was.\<close>

lemma PushBack_leaves_others:
  assumes wfc: "well_formed (h1, c)" and elc: "elements (h1, c) = Inr xs"
    and wfs: "well_formed (h1, s)" and els: "elements (h1, s) = Inr ys"
    and dis: "\<And>a. raw_ptr_f (ptr_f s) = Ptr a 0 \<Longrightarrow> Ptr a 0 \<noteq> raw_ptr_f (ptr_f c)"
  shows "\<forall>v x. read_ref h1 v = Inr x \<and> \<not> refers_into c v \<longrightarrow>
           (\<exists>h2 c2. PushBack d v (h1, c) = Inr (h2, c2)
              \<and> size_f c2 = size_f c + 1 \<and> elements (h2, c2) = Inr (xs @ [x])
              \<and> elements (h2, s) = Inr ys)"
    and "\<forall>v h2 c2. PushBack d v (h1, c) = Inr (h2, c2) \<longrightarrow> elements (h2, s) = Inr ys"
proof -
  have live: "a < length h1" if "raw_ptr_f (ptr_f s) = Ptr a 0" for a
    using wfs that by (cases rule: well_formedE) (auto dest: block_SomeD)
  have keep: "elements (h2, s) = Inr ys"
    if fr: "\<And>a. Ptr a 0 \<noteq> raw_ptr_f (ptr_f c) \<Longrightarrow> a < length h1 \<Longrightarrow> block h2 a = block h1 a"
    for h2 :: "'a heap"
  proof -
    have k: "block h2 a = block h1 a" if "raw_ptr_f (ptr_f s) = Ptr a 0" for a
      using dis [OF that] live [OF that] by (rule fr)
    have "well_formed (h2, s) \<and> elements (h2, s) = elements (h1, s)"
      using wfs k by (rule well_formed_frame)
    with els show ?thesis by simp
  qed
  show "\<forall>v x. read_ref h1 v = Inr x \<and> \<not> refers_into c v \<longrightarrow>
           (\<exists>h2 c2. PushBack d v (h1, c) = Inr (h2, c2)
              \<and> size_f c2 = size_f c + 1 \<and> elements (h2, c2) = Inr (xs @ [x])
              \<and> elements (h2, s) = Inr ys)"
  proof (intro allI impI, elim conjE)
    fix v x assume rd: "read_ref h1 v = Inr x" and nr: "\<not> refers_into c v"
    obtain h2 c2 where pb: "PushBack d v (h1, c) = Inr (h2, c2)"
      and el2: "elements (h2, c2) = Inr (xs @ [x])" and sz2: "size_f c2 = size_f c + 1"
      and fr: "\<And>a. Ptr a 0 \<noteq> raw_ptr_f (ptr_f c) \<Longrightarrow> a < length h1 \<Longrightarrow> block h2 a = block h1 a"
      using PushBack_ok [OF wfc elc rd, of d] nr by metis
    from keep [OF fr] pb el2 sz2
    show "\<exists>h2 c2. PushBack d v (h1, c) = Inr (h2, c2)
              \<and> size_f c2 = size_f c + 1 \<and> elements (h2, c2) = Inr (xs @ [x])
              \<and> elements (h2, s) = Inr ys"
      by blast
  qed
  show "\<forall>v h2 c2. PushBack d v (h1, c) = Inr (h2, c2) \<longrightarrow> elements (h2, s) = Inr ys"
  proof (intro allI impI)
    fix v h2 c2 assume r: "PushBack d v (h1, c) = Inr (h2, c2)"
    show "elements (h2, s) = Inr ys"
      using PushBack_returns_ok(3) [OF wfc r] by (rule keep)
  qed
qed

text \<open>
  C7. Let \<open>rhs\<close> be a well-formed vector holding \<open>xs\<close>. Copy construction from it, and copy
  assignment from it to another well-formed object \<open>this\<close> that does not share its array,
  return a vector with \<open>capacity = size = rhs.size\<close> that holds \<open>xs\<close>, and leave \<open>rhs\<close> as
  it was. A following \<^verbatim>\<open>PushBack\<close> on the copy, of any live object outside the array
  of the copy itself, returns and makes the copy hold \<open>xs @ [x]\<close> with one more element,
  while \<open>rhs\<close> still holds \<open>xs\<close>; and whatever the argument, a \<^verbatim>\<open>PushBack\<close> on the copy
  that returns leaves \<open>rhs\<close> holding \<open>xs\<close>.
\<close>

theorem copy_is_independent:
  assumes wf: "well_formed (h, objs rhs)" and el: "elements (h, objs rhs) = Inr xs"
    and wft: "well_formed (h, objs this)" and ne: "this \<noteq> rhs"
    and own: "raw_ptr_f (ptr_f (objs this)) \<noteq> raw_ptr_f (ptr_f (objs rhs))
              \<or> raw_ptr_f (ptr_f (objs rhs)) = Null"
  shows "(\<exists>h1 c. SimpleVector_copy d (objs rhs) h = Inr (h1, c)
       \<and> GetSize c = GetSize (objs rhs) \<and> GetCapacity c = GetSize (objs rhs)
       \<and> elements (h1, c) = Inr xs \<and> elements (h1, objs rhs) = Inr xs
       \<and> (\<forall>v x. read_ref h1 v = Inr x \<and> \<not> refers_into c v \<longrightarrow>
            (\<exists>h2 c2. PushBack d v (h1, c) = Inr (h2, c2)
               \<and> GetSize c2 = GetSize (objs rhs) + 1 \<and> elements (h2, c2) = Inr (xs @ [x])
               \<and> elements (h2, objs rhs) = Inr xs))
       \<and> (\<forall>v h2 c2. PushBack d v (h1, c) = Inr (h2, c2) \<longrightarrow> elements (h2, objs rhs) = Inr xs))
     \<and> (\<exists>h1 objs1. copy_assign d this rhs (h, objs) = Inr (h1, objs1)
       \<and> objs1 rhs = objs rhs
       \<and> GetSize (objs1 this) = GetSize (objs rhs) \<and> GetCapacity (objs1 this) = GetSize (objs rhs)
       \<and> elements (h1, objs1 this) = Inr xs \<and> elements (h1, objs1 rhs) = Inr xs
       \<and> (\<forall>v x. read_ref h1 v = Inr x \<and> \<not> refers_into (objs1 this) v \<longrightarrow>
            (\<exists>h2 c2. PushBack d v (h1, objs1 this) = Inr (h2, c2)
               \<and> GetSize c2 = GetSize (objs rhs) + 1 \<and> elements (h2, c2) = Inr (xs @ [x])
               \<and> elements (h2, objs1 rhs) = Inr xs))
       \<and> (\<forall>v h2 c2. PushBack d v (h1, objs1 this) = Inr (h2, c2)
            \<longrightarrow> elements (h2, objs1 rhs) = Inr xs))"
proof
  let ?s = "objs rhs"
  have live: "a < length h" if "raw_ptr_f (ptr_f ?s) = Ptr a 0" for a
    using wf that by (cases rule: well_formedE) (auto dest: block_SomeD)
  obtain h1 c where cp: "SimpleVector_copy d ?s h = Inr (h1, c)"
    and wfc: "well_formed (h1, c)" and elc: "elements (h1, c) = Inr xs"
    and sz: "size_f c = size_f ?s" and cap: "capacity_f c = size_f ?s"
    and h1: "h1 = (if size_f ?s = 0 then h else h @ [Some xs])"
    and raw: "raw_ptr_f (ptr_f c) = (if size_f ?s = 0 then Null else Ptr (length h) 0)"
    using SimpleVector_copy_ok [OF wf el, of d] by metis
  have k1: "block h1 a = block h a" if "raw_ptr_f (ptr_f ?s) = Ptr a 0" for a
    using live [OF that] h1 by (simp add: block_append_lt)
  have s1: "well_formed (h1, ?s) \<and> elements (h1, ?s) = elements (h, ?s)"
    using wf k1 by (rule well_formed_frame)
  then have wfs: "well_formed (h1, ?s)" and els: "elements (h1, ?s) = Inr xs"
    using el by simp_all
  have dis: "Ptr a 0 \<noteq> raw_ptr_f (ptr_f c)" if "raw_ptr_f (ptr_f ?s) = Ptr a 0" for a
    using live [OF that] raw by (auto split: if_splits)
  note pb = PushBack_leaves_others [OF wfc elc wfs els dis, of d]
  show "\<exists>h1 c. SimpleVector_copy d ?s h = Inr (h1, c)
       \<and> GetSize c = GetSize ?s \<and> GetCapacity c = GetSize ?s
       \<and> elements (h1, c) = Inr xs \<and> elements (h1, ?s) = Inr xs
       \<and> (\<forall>v x. read_ref h1 v = Inr x \<and> \<not> refers_into c v \<longrightarrow>
            (\<exists>h2 c2. PushBack d v (h1, c) = Inr (h2, c2)
               \<and> GetSize c2 = GetSize ?s + 1 \<and> elements (h2, c2) = Inr (xs @ [x])
               \<and> elements (h2, ?s) = Inr xs))
       \<and> (\<forall>v h2 c2. PushBack d v (h1, c) = Inr (h2, c2) \<longrightarrow> elements (h2, ?s) = Inr xs)"
    using cp sz cap elc els pb
    by (intro exI [of _ h1] exI [of _ c]) (simp add: GetSize_def GetCapacity_def)
next
  let ?s = "objs rhs"
  have live: "a < length h \<and> Ptr a 0 \<noteq> raw_ptr_f (ptr_f (objs this))"
    if "raw_ptr_f (ptr_f ?s) = Ptr a 0" for a
    using wf that own by (cases rule: well_formedE) (auto dest: block_SomeD)
  obtain h1 c where ca: "copy_assign d this rhs (h, objs) = Inr (h1, objs(this := c))"
    and wfc: "well_formed (h1, c)" and elc: "elements (h1, c) = Inr xs"
    and sz: "size_f c = size_f ?s" and cap: "capacity_f c = size_f ?s"
    and fr1: "\<And>a. Ptr a 0 \<noteq> raw_ptr_f (ptr_f (objs this)) \<Longrightarrow> a < length h \<Longrightarrow> block h1 a = block h a"
    and raw: "raw_ptr_f (ptr_f c) = (if size_f ?s = 0 then Null else Ptr (length h) 0)"
    using copy_assign_ok [where objs = objs and rhs = rhs and this = this and d = d, OF wf el wft]
    by metis
  have k1: "block h1 a = block h a" if "raw_ptr_f (ptr_f ?s) = Ptr a 0" for a
    using live [OF that] by (intro fr1) simp_all
  have s1: "well_formed (h1, ?s) \<and> elements (h1, ?s) = elements (h, ?s)"
    using wf k1 by (rule well_formed_frame)
  then have wfs: "well_formed (h1, ?s)" and els: "elements (h1, ?s) = Inr xs"
    using el by simp_all
  have dis: "Ptr a 0 \<noteq> raw_ptr_f (ptr_f c)" if "raw_ptr_f (ptr_f ?s) = Ptr a 0" for a
    using live [OF that] raw by (auto split: if_splits)
  note pb = PushBack_leaves_others [OF wfc elc wfs els dis, of d]
  let ?objs1 = "objs(this := c)"
  have "?objs1 rhs = ?s" "?objs1 this = c" using ne by simp_all
  then show "\<exists>h1 objs1. copy_assign d this rhs (h, objs) = Inr (h1, objs1)
       \<and> objs1 rhs = ?s
       \<and> GetSize (objs1 this) = GetSize ?s \<and> GetCapacity (objs1 this) = GetSize ?s
       \<and> elements (h1, objs1 this) = Inr xs \<and> elements (h1, objs1 rhs) = Inr xs
       \<and> (\<forall>v x. read_ref h1 v = Inr x \<and> \<not> refers_into (objs1 this) v \<longrightarrow>
            (\<exists>h2 c2. PushBack d v (h1, objs1 this) = Inr (h2, c2)
               \<and> GetSize c2 = GetSize ?s + 1 \<and> elements (h2, c2) = Inr (xs @ [x])
               \<and> elements (h2, objs1 rhs) = Inr xs))
       \<and> (\<forall>v h2 c2. PushBack d v (h1, objs1 this) = Inr (h2, c2)
            \<longrightarrow> elements (h2, objs1 rhs) = Inr xs)"
    using ca sz cap elc els pb
    by (intro exI [of _ h1] exI [of _ ?objs1]) (simp add: GetSize_def GetCapacity_def)
qed


theorem copy_is_independent_witness:
  "well_formed ([Some [1, 2, 3 :: int, 0], Some [7]], (\<lambda>i::nat. if i = 0 then \<lparr>ptr_f = \<lparr>raw_ptr_f = Ptr 0 0\<rparr>, size_f = 3, capacity_f = 4\<rparr>
        else \<lparr>ptr_f = \<lparr>raw_ptr_f = Ptr 1 0\<rparr>, size_f = 1, capacity_f = 1\<rparr>) 0) \<and> elements ([Some [1, 2, 3 :: int, 0], Some [7]], (\<lambda>i::nat. if i = 0 then \<lparr>ptr_f = \<lparr>raw_ptr_f = Ptr 0 0\<rparr>, size_f = 3, capacity_f = 4\<rparr>
        else \<lparr>ptr_f = \<lparr>raw_ptr_f = Ptr 1 0\<rparr>, size_f = 1, capacity_f = 1\<rparr>) 0) = Inr [1, 2, 3]
   \<and> well_formed ([Some [1, 2, 3 :: int, 0], Some [7]], (\<lambda>i::nat. if i = 0 then \<lparr>ptr_f = \<lparr>raw_ptr_f = Ptr 0 0\<rparr>, size_f = 3, capacity_f = 4\<rparr>
        else \<lparr>ptr_f = \<lparr>raw_ptr_f = Ptr 1 0\<rparr>, size_f = 1, capacity_f = 1\<rparr>) 1) \<and> (1::nat) \<noteq> 0
   \<and> raw_ptr_f (ptr_f ((\<lambda>i::nat. if i = 0 then \<lparr>ptr_f = \<lparr>raw_ptr_f = Ptr 0 0\<rparr>, size_f = 3, capacity_f = 4\<rparr>
        else \<lparr>ptr_f = \<lparr>raw_ptr_f = Ptr 1 0\<rparr>, size_f = 1, capacity_f = 1\<rparr>) 1)) \<noteq> raw_ptr_f (ptr_f ((\<lambda>i::nat. if i = 0 then \<lparr>ptr_f = \<lparr>raw_ptr_f = Ptr 0 0\<rparr>, size_f = 3, capacity_f = 4\<rparr>
        else \<lparr>ptr_f = \<lparr>raw_ptr_f = Ptr 1 0\<rparr>, size_f = 1, capacity_f = 1\<rparr>) 0))
   \<and> (\<exists>h1 c h2 c2. SimpleVector_copy 0 ((\<lambda>i::nat. if i = 0 then \<lparr>ptr_f = \<lparr>raw_ptr_f = Ptr 0 0\<rparr>, size_f = 3, capacity_f = 4\<rparr>
        else \<lparr>ptr_f = \<lparr>raw_ptr_f = Ptr 1 0\<rparr>, size_f = 1, capacity_f = 1\<rparr>) 0) [Some [1, 2, 3 :: int, 0], Some [7]] = Inr (h1, c)
       \<and> GetSize c = 3 \<and> GetCapacity c = 3 \<and> elements (h1, c) = Inr [1, 2, 3]
       \<and> PushBack 0 (Object 4) (h1, c) = Inr (h2, c2)
       \<and> GetSize c2 = 4 \<and> elements (h2, c2) = Inr [1, 2, 3, 4]
       \<and> GetSize ((\<lambda>i::nat. if i = 0 then \<lparr>ptr_f = \<lparr>raw_ptr_f = Ptr 0 0\<rparr>, size_f = 3, capacity_f = 4\<rparr>
        else \<lparr>ptr_f = \<lparr>raw_ptr_f = Ptr 1 0\<rparr>, size_f = 1, capacity_f = 1\<rparr>) 0) = 3 \<and> elements (h2, (\<lambda>i::nat. if i = 0 then \<lparr>ptr_f = \<lparr>raw_ptr_f = Ptr 0 0\<rparr>, size_f = 3, capacity_f = 4\<rparr>
        else \<lparr>ptr_f = \<lparr>raw_ptr_f = Ptr 1 0\<rparr>, size_f = 1, capacity_f = 1\<rparr>) 0) = Inr [1, 2, 3])
   \<and> (\<exists>h1 objs1 h2 c2. copy_assign 0 1 0 ([Some [1, 2, 3 :: int, 0], Some [7]], (\<lambda>i::nat. if i = 0 then \<lparr>ptr_f = \<lparr>raw_ptr_f = Ptr 0 0\<rparr>, size_f = 3, capacity_f = 4\<rparr>
        else \<lparr>ptr_f = \<lparr>raw_ptr_f = Ptr 1 0\<rparr>, size_f = 1, capacity_f = 1\<rparr>)) = Inr (h1, objs1)
       \<and> GetSize (objs1 1) = 3 \<and> GetCapacity (objs1 1) = 3
       \<and> elements (h1, objs1 1) = Inr [1, 2, 3]
       \<and> PushBack 0 (Object 4) (h1, objs1 1) = Inr (h2, c2)
       \<and> GetSize c2 = 4 \<and> elements (h2, c2) = Inr [1, 2, 3, 4]
       \<and> GetSize (objs1 0) = 3 \<and> elements (h2, objs1 0) = Inr [1, 2, 3])"
proof -
  let ?h = "[Some [1, 2, 3 :: int, 0], Some [7]]"
  let ?a = "\<lparr>ptr_f = \<lparr>raw_ptr_f = Ptr 0 0\<rparr>, size_f = 3, capacity_f = 4\<rparr>"
  let ?b = "\<lparr>ptr_f = \<lparr>raw_ptr_f = Ptr 1 0\<rparr>, size_f = 1, capacity_f = 1\<rparr>"
  let ?objs = "(\<lambda>i::nat. if i = 0 then \<lparr>ptr_f = \<lparr>raw_ptr_f = Ptr 0 0\<rparr>, size_f = 3, capacity_f = 4\<rparr>
        else \<lparr>ptr_f = \<lparr>raw_ptr_f = Ptr 1 0\<rparr>, size_f = 1, capacity_f = 1\<rparr>)"
  have o0: "?objs 0 = ?a" and o1: "?objs 1 = ?b" by simp_all
  have wf: "well_formed (?h, ?objs 0)" unfolding o0 by code_simp
  have el: "elements (?h, ?objs 0) = Inr [1, 2, 3]" unfolding o0 by code_simp
  have wft: "well_formed (?h, ?objs 1)" unfolding o1 by code_simp
  have ne: "(1::nat) \<noteq> 0" by simp
  have own: "raw_ptr_f (ptr_f (?objs 1)) \<noteq> raw_ptr_f (ptr_f (?objs 0))" by simp
  have sz: "GetSize (?objs 0) = 3" by (simp add: GetSize_def)
  from own have own': "raw_ptr_f (ptr_f (?objs 1)) \<noteq> raw_ptr_f (ptr_f (?objs 0))
      \<or> raw_ptr_f (ptr_f (?objs 0)) = Null" by (rule disjI1)
  note inst = copy_is_independent [where objs = ?objs and rhs = 0 and this = 1 and d = 0,
      OF wf el wft ne own']
  from inst [THEN conjunct1] obtain h1 c where
    c1: "SimpleVector_copy 0 (?objs 0) ?h = Inr (h1, c)"
      "GetSize c = GetSize (?objs 0)" "GetCapacity c = GetSize (?objs 0)"
      "elements (h1, c) = Inr [1, 2, 3]"
    and p1: "\<forall>v x. read_ref h1 v = Inr x \<and> \<not> refers_into c v \<longrightarrow>
            (\<exists>h2 c2. PushBack 0 v (h1, c) = Inr (h2, c2)
               \<and> GetSize c2 = GetSize (?objs 0) + 1 \<and> elements (h2, c2) = Inr ([1, 2, 3] @ [x])
               \<and> elements (h2, ?objs 0) = Inr [1, 2, 3])"
    by blast
  from p1 [rule_format, of "Object 4" 4] obtain h2 c2 where
    "PushBack 0 (Object 4) (h1, c) = Inr (h2, c2)"
    "GetSize c2 = GetSize (?objs 0) + 1" "elements (h2, c2) = Inr ([1, 2, 3] @ [4])"
    "elements (h2, ?objs 0) = Inr [1, 2, 3]"
    by auto
  with c1 sz have 1: "\<exists>h1 c h2 c2. SimpleVector_copy 0 (?objs 0) ?h = Inr (h1, c)
       \<and> GetSize c = 3 \<and> GetCapacity c = 3 \<and> elements (h1, c) = Inr [1, 2, 3]
       \<and> PushBack 0 (Object 4) (h1, c) = Inr (h2, c2)
       \<and> GetSize c2 = 4 \<and> elements (h2, c2) = Inr [1, 2, 3, 4]
       \<and> GetSize (?objs 0) = 3 \<and> elements (h2, ?objs 0) = Inr [1, 2, 3]"
    by (intro exI [of _ h1] exI [of _ c] exI [of _ h2] exI [of _ c2]) simp
  from inst [THEN conjunct2] obtain g1 objs1 where
    c2: "copy_assign 0 1 0 (?h, ?objs) = Inr (g1, objs1)" "objs1 0 = ?objs 0"
      "GetSize (objs1 1) = GetSize (?objs 0)" "GetCapacity (objs1 1) = GetSize (?objs 0)"
      "elements (g1, objs1 1) = Inr [1, 2, 3]"
    and p2: "\<forall>v x. read_ref g1 v = Inr x \<and> \<not> refers_into (objs1 1) v \<longrightarrow>
            (\<exists>h2 c2. PushBack 0 v (g1, objs1 1) = Inr (h2, c2)
               \<and> GetSize c2 = GetSize (?objs 0) + 1 \<and> elements (h2, c2) = Inr ([1, 2, 3] @ [x])
               \<and> elements (h2, objs1 0) = Inr [1, 2, 3])"
    by blast
  from p2 [rule_format, of "Object 4" 4] obtain g2 d2 where
    "PushBack 0 (Object 4) (g1, objs1 1) = Inr (g2, d2)"
    "GetSize d2 = GetSize (?objs 0) + 1" "elements (g2, d2) = Inr ([1, 2, 3] @ [4])"
    "elements (g2, objs1 0) = Inr [1, 2, 3]"
    by auto
  with c2 sz have 2: "\<exists>h1 objs1 h2 c2. copy_assign 0 1 0 (?h, ?objs) = Inr (h1, objs1)
       \<and> GetSize (objs1 1) = 3 \<and> GetCapacity (objs1 1) = 3
       \<and> elements (h1, objs1 1) = Inr [1, 2, 3]
       \<and> PushBack 0 (Object 4) (h1, objs1 1) = Inr (h2, c2)
       \<and> GetSize c2 = 4 \<and> elements (h2, c2) = Inr [1, 2, 3, 4]
       \<and> GetSize (objs1 0) = 3 \<and> elements (h2, objs1 0) = Inr [1, 2, 3]"
    by (intro exI [of _ g1] exI [of _ objs1] exI [of _ g2] exI [of _ d2]) simp
  from wf el wft ne own 1 2 show ?thesis by blast
qed


text \<open>
  C10. Copy assignment of a well-formed vector to itself returns; the vector holds the
  same elements and has the same size as before, and its capacity equals its size.
\<close>

theorem copy_assign_self:
  assumes wf: "well_formed (h, objs v)" and el: "elements (h, objs v) = Inr xs"
  shows "\<exists>h' objs'. copy_assign d v v (h, objs) = Inr (h', objs')
     \<and> elements (h', objs' v) = Inr xs
     \<and> GetSize (objs' v) = GetSize (objs v)
     \<and> GetCapacity (objs' v) = GetSize (objs v)
     \<and> well_formed (h', objs' v)"
proof -
  obtain h1 c where ca: "copy_assign d v v (h, objs) = Inr (h1, objs(v := c))"
    and wfc: "well_formed (h1, c)" and elc: "elements (h1, c) = Inr xs"
    and sz: "size_f c = size_f (objs v)" and cap: "capacity_f c = size_f (objs v)"
    using copy_assign_ok [where objs = objs and rhs = v and this = v and d = d, OF wf el wf]
    by metis
  then show ?thesis
    by (intro exI [of _ h1] exI [of _ "objs(v := c)"]) (simp add: GetSize_def GetCapacity_def)
qed



theorem copy_assign_self_witness:
  "well_formed ([Some [1, 2, 3 :: int, 0]], (\<lambda>_. \<lparr>ptr_f = \<lparr>raw_ptr_f = Ptr 0 0\<rparr>, size_f = 3, capacity_f = 4\<rparr>) (0::nat)) \<and> elements ([Some [1, 2, 3 :: int, 0]], (\<lambda>_. \<lparr>ptr_f = \<lparr>raw_ptr_f = Ptr 0 0\<rparr>, size_f = 3, capacity_f = 4\<rparr>) (0::nat)) = Inr [1, 2, 3]
   \<and> (\<exists>h' objs'. copy_assign 0 0 0 ([Some [1, 2, 3 :: int, 0]], \<lambda>_. \<lparr>ptr_f = \<lparr>raw_ptr_f = Ptr 0 0\<rparr>, size_f = 3, capacity_f = 4\<rparr>) = Inr (h', objs')
       \<and> elements (h', objs' 0) = Inr [1, 2, 3] \<and> GetSize (objs' 0) = 3
       \<and> GetCapacity (objs' 0) = 3)"
proof -
  let ?h = "[Some [1, 2, 3 :: int, 0]]"
  let ?objs = "\<lambda>_ :: nat. \<lparr>ptr_f = \<lparr>raw_ptr_f = Ptr 0 0\<rparr>, size_f = 3, capacity_f = 4\<rparr>"
  have wf: "well_formed (?h, ?objs 0)" by code_simp
  have el: "elements (?h, ?objs 0) = Inr [1, 2, 3]" by code_simp
  from copy_assign_self [where objs = ?objs and v = 0 and d = 0, OF wf el] wf el
  show ?thesis by (simp add: GetSize_def) blast
qed

section \<open>Comparison\<close>

lemma equal_loop_eq: "length xs = length ys \<Longrightarrow> equal_loop xs ys = (xs = ys)"
  by (induction xs ys rule: list_induct2) auto

lemma lexicographical_loop_lexord:
  "lexicographical_loop xs ys = ((xs, ys) \<in> lexord {(x, y). x < y})"
  by (induction xs ys rule: lexicographical_loop.induct) (auto simp: neq_Nil_conv)

lemma elements_range:
  assumes "elements (h, this) = Inr xs"
  obtains e where "end_it this = Inr e" "read_range (begin_it this) e h = Inr xs"
  using assms by (cases "end_it this") (auto simp: elements_def)

lemma op_eq_ok:
  assumes wfa: "well_formed (h, a)" and ela: "elements (h, a) = Inr xs"
    and wfb: "well_formed (h, b)" and elb: "elements (h, b) = Inr ys"
    and same: "same \<Longrightarrow> a = b"
  shows "op_eq same a b h = Inr (xs = ys)"
proof -
  obtain e1 where e1: "end_it a = Inr e1" "read_range (begin_it a) e1 h = Inr xs"
    using ela by (rule elements_range)
  obtain e2 where e2: "end_it b = Inr e2" "read_range (begin_it b) e2 h = Inr ys"
    using elb by (rule elements_range)
  have la: "length xs = size_f a" using wfa ela by (rule elements_length)
  have lb: "length ys = size_f b" using wfb elb by (rule elements_length)
  show ?thesis
  proof (cases same)
    case True
    with same ela elb have "xs = ys" by simp
    with True show ?thesis by (simp add: op_eq_def)
  next
    case False
    then show ?thesis
      using e1 e2 la lb
      by (auto simp: op_eq_def GetSize_def std_equal_def equal_loop_eq)
  qed
qed

lemma op_lt_ok:
  fixes h :: "('a::linorder) heap"
  assumes ela: "elements (h, a) = Inr xs" and elb: "elements (h, b) = Inr ys"
  shows "op_lt a b h = Inr ((xs, ys) \<in> lexord {(x, y). x < y})"
proof -
  obtain e1 where e1: "end_it a = Inr e1" "read_range (begin_it a) e1 h = Inr xs"
    using ela by (rule elements_range)
  obtain e2 where e2: "end_it b = Inr e2" "read_range (begin_it b) e2 h = Inr ys"
    using elb by (rule elements_range)
  show ?thesis
    using e1 e2 by (simp add: op_lt_def std_lexicographical_compare_def lexicographical_loop_lexord)
qed

lemma op_ne_ok:
  assumes wfa: "well_formed (h, a)" and ela: "elements (h, a) = Inr xs"
    and wfb: "well_formed (h, b)" and elb: "elements (h, b) = Inr ys"
  shows "\<exists>h'. op_ne d a b h = Inr (xs \<noteq> ys, h')"
proof -
  obtain h1 c where cp: "SimpleVector_copy d b h = Inr (h1, c)"
    and wfc: "well_formed (h1, c)" and elc: "elements (h1, c) = Inr ys"
    and h1: "h1 = (if size_f b = 0 then h else h @ [Some ys])"
    and raw: "raw_ptr_f (ptr_f c) = (if size_f b = 0 then Null else Ptr (length h) 0)"
    using SimpleVector_copy_ok [OF wfb elb, of d] by metis
  have "block h1 k = block h k" if "raw_ptr_f (ptr_f a) = Ptr k 0" for k
  proof -
    from wfa that have "k < length h" by (cases rule: well_formedE) (auto dest: block_SomeD)
    then show ?thesis using h1 by (simp add: block_append_lt)
  qed
  with wfa have "well_formed (h1, a) \<and> elements (h1, a) = elements (h, a)"
    by (rule well_formed_frame)
  with ela have wfa1: "well_formed (h1, a)" and ela1: "elements (h1, a) = Inr xs" by simp_all
  have eq: "op_eq False a c h1 = Inr (xs = ys)"
    using wfa1 ela1 wfc elc by (rule op_eq_ok) simp
  have "\<exists>h2. SimpleVector_dtor c h1 = Inr h2"
    using raw h1 by (cases "size_f b = 0")
      (simp_all add: SimpleVector_dtor_def ArrayPtr_dtor_def delete_array_def)
  then obtain h2 where "SimpleVector_dtor c h1 = Inr h2" ..
  with cp eq show ?thesis by (simp add: op_ne_def)
qed


text \<open>
  C9. The element type's \<^verbatim>\<open>==\<close> is equality and its \<^verbatim>\<open><\<close> a linear order. For well-formed
  vectors \<open>a\<close> and \<open>b\<close> holding \<open>xs\<close> and \<open>ys\<close> (with \<open>a = b\<close> when both are the same
  object): \<^verbatim>\<open>a == b\<close> is \<open>xs = ys\<close>, that is equal sizes and equal elements at
  every index; it is true of \<open>a\<close> and itself and does not depend on the order of its
  operands; \<^verbatim>\<open>a < b\<close> is the lexicographic order of \<open>xs\<close> and \<open>ys\<close>; and \<^verbatim>\<open>a != b\<close> is
  \<^verbatim>\<open>!(a == b)\<close>, \<^verbatim>\<open>a <= b\<close> is \<^verbatim>\<open>!(b < a)\<close>, \<^verbatim>\<open>a > b\<close> is \<^verbatim>\<open>!(a <= b)\<close> and \<^verbatim>\<open>a >= b\<close>
  is \<^verbatim>\<open>!(a < b)\<close>. The witness evaluates the four literal cases of the specification.
\<close>

theorem comparison_operators:
  fixes h :: "('a::linorder) heap"
  assumes wfa: "well_formed (h, a)" and ela: "elements (h, a) = Inr xs"
    and wfb: "well_formed (h, b)" and elb: "elements (h, b) = Inr ys"
    and same: "same \<Longrightarrow> a = b"
  shows "op_eq same a b h = Inr (xs = ys)
     \<and> (xs = ys) = (GetSize a = GetSize b \<and> (\<forall>i<GetSize a. xs ! i = ys ! i))
     \<and> op_eq True a a h = Inr True
     \<and> op_eq same b a h = op_eq same a b h
     \<and> op_lt a b h = Inr ((xs, ys) \<in> lexord {(x, y). x < y})
     \<and> (\<exists>h'. op_ne d a b h = Inr (\<not> (xs = ys), h'))
     \<and> op_le a b h = Inr (\<not> ((ys, xs) \<in> lexord {(x, y). x < y}))
     \<and> op_gt a b h = Inr (\<not> \<not> ((ys, xs) \<in> lexord {(x, y). x < y}))
     \<and> op_ge a b h = Inr (\<not> ((xs, ys) \<in> lexord {(x, y). x < y}))"
proof -
  have la: "length xs = size_f a" using wfa ela by (rule elements_length)
  have lb: "length ys = size_f b" using wfb elb by (rule elements_length)
  have 1: "op_eq same a b h = Inr (xs = ys)"
    using wfa ela wfb elb same by (rule op_eq_ok)
  have 2: "(xs = ys) = (GetSize a = GetSize b \<and> (\<forall>i<GetSize a. xs ! i = ys ! i))"
    using la lb by (auto simp: GetSize_def list_eq_iff_nth_eq)
  have 3: "op_eq True a a h = Inr True" by (simp add: op_eq_def)
  have "op_eq same b a h = Inr (ys = xs)"
    using wfb elb wfa ela same by (intro op_eq_ok) simp_all
  with 1 have 4: "op_eq same b a h = op_eq same a b h" by auto
  have 5: "op_lt a b h = Inr ((xs, ys) \<in> lexord {(x, y). x < y})"
    using ela elb by (rule op_lt_ok)
  have 6: "\<exists>h'. op_ne d a b h = Inr (\<not> (xs = ys), h')"
    using wfa ela wfb elb by (rule op_ne_ok)
  have lt': "op_lt b a h = Inr ((ys, xs) \<in> lexord {(x, y). x < y})"
    using elb ela by (rule op_lt_ok)
  have 7: "op_le a b h = Inr (\<not> ((ys, xs) \<in> lexord {(x, y). x < y}))"
    using lt' by (simp add: op_le_def)
  have 8: "op_gt a b h = Inr (\<not> \<not> ((ys, xs) \<in> lexord {(x, y). x < y}))"
    using 7 by (simp add: op_gt_def)
  have 9: "op_ge a b h = Inr (\<not> ((xs, ys) \<in> lexord {(x, y). x < y}))"
    using 5 by (simp add: op_ge_def)
  from 1 2 3 4 5 6 7 8 9 show ?thesis by blast
qed


theorem comparison_operators_witness:
  "well_formed ([Some [1, 2, 3 :: int], Some [1, 2, 3], Some [1, 2], Some [1, 2, 4]], \<lparr>ptr_f = \<lparr>raw_ptr_f = Ptr 0 0\<rparr>, size_f = 3, capacity_f = 3\<rparr>) \<and> elements ([Some [1, 2, 3 :: int], Some [1, 2, 3], Some [1, 2], Some [1, 2, 4]], \<lparr>ptr_f = \<lparr>raw_ptr_f = Ptr 0 0\<rparr>, size_f = 3, capacity_f = 3\<rparr>) = Inr [1, 2, 3]
   \<and> well_formed ([Some [1, 2, 3 :: int], Some [1, 2, 3], Some [1, 2], Some [1, 2, 4]], \<lparr>ptr_f = \<lparr>raw_ptr_f = Ptr 3 0\<rparr>, size_f = 3, capacity_f = 3\<rparr>) \<and> elements ([Some [1, 2, 3 :: int], Some [1, 2, 3], Some [1, 2], Some [1, 2, 4]], \<lparr>ptr_f = \<lparr>raw_ptr_f = Ptr 3 0\<rparr>, size_f = 3, capacity_f = 3\<rparr>) = Inr [1, 2, 4]
   \<and> op_eq False \<lparr>ptr_f = \<lparr>raw_ptr_f = Ptr 0 0\<rparr>, size_f = 3, capacity_f = 3\<rparr> \<lparr>ptr_f = \<lparr>raw_ptr_f = Ptr 3 0\<rparr>, size_f = 3, capacity_f = 3\<rparr> [Some [1, 2, 3 :: int], Some [1, 2, 3], Some [1, 2], Some [1, 2, 4]] = Inr False
   \<and> op_lt \<lparr>ptr_f = \<lparr>raw_ptr_f = Ptr 0 0\<rparr>, size_f = 3, capacity_f = 3\<rparr> \<lparr>ptr_f = \<lparr>raw_ptr_f = Ptr 3 0\<rparr>, size_f = 3, capacity_f = 3\<rparr> [Some [1, 2, 3 :: int], Some [1, 2, 3], Some [1, 2], Some [1, 2, 4]] = Inr True
   \<and> (\<exists>h'. op_ne 0 \<lparr>ptr_f = \<lparr>raw_ptr_f = Ptr 0 0\<rparr>, size_f = 3, capacity_f = 3\<rparr> \<lparr>ptr_f = \<lparr>raw_ptr_f = Ptr 3 0\<rparr>, size_f = 3, capacity_f = 3\<rparr> [Some [1, 2, 3 :: int], Some [1, 2, 3], Some [1, 2], Some [1, 2, 4]] = Inr (True, h'))
   \<and> op_le \<lparr>ptr_f = \<lparr>raw_ptr_f = Ptr 0 0\<rparr>, size_f = 3, capacity_f = 3\<rparr> \<lparr>ptr_f = \<lparr>raw_ptr_f = Ptr 3 0\<rparr>, size_f = 3, capacity_f = 3\<rparr> [Some [1, 2, 3 :: int], Some [1, 2, 3], Some [1, 2], Some [1, 2, 4]] = Inr True
   \<and> op_gt \<lparr>ptr_f = \<lparr>raw_ptr_f = Ptr 0 0\<rparr>, size_f = 3, capacity_f = 3\<rparr> \<lparr>ptr_f = \<lparr>raw_ptr_f = Ptr 3 0\<rparr>, size_f = 3, capacity_f = 3\<rparr> [Some [1, 2, 3 :: int], Some [1, 2, 3], Some [1, 2], Some [1, 2, 4]] = Inr False
   \<and> op_ge \<lparr>ptr_f = \<lparr>raw_ptr_f = Ptr 0 0\<rparr>, size_f = 3, capacity_f = 3\<rparr> \<lparr>ptr_f = \<lparr>raw_ptr_f = Ptr 3 0\<rparr>, size_f = 3, capacity_f = 3\<rparr> [Some [1, 2, 3 :: int], Some [1, 2, 3], Some [1, 2], Some [1, 2, 4]] = Inr False
   \<and> op_eq False \<lparr>ptr_f = \<lparr>raw_ptr_f = Ptr 0 0\<rparr>, size_f = 3, capacity_f = 3\<rparr> \<lparr>ptr_f = \<lparr>raw_ptr_f = Ptr 1 0\<rparr>, size_f = 3, capacity_f = 3\<rparr> [Some [1, 2, 3 :: int], Some [1, 2, 3], Some [1, 2], Some [1, 2, 4]] = Inr True
   \<and> op_eq False \<lparr>ptr_f = \<lparr>raw_ptr_f = Ptr 0 0\<rparr>, size_f = 3, capacity_f = 3\<rparr> \<lparr>ptr_f = \<lparr>raw_ptr_f = Ptr 2 0\<rparr>, size_f = 2, capacity_f = 2\<rparr> [Some [1, 2, 3 :: int], Some [1, 2, 3], Some [1, 2], Some [1, 2, 4]] = Inr False
   \<and> op_lt \<lparr>ptr_f = \<lparr>raw_ptr_f = Ptr 2 0\<rparr>, size_f = 2, capacity_f = 2\<rparr> \<lparr>ptr_f = \<lparr>raw_ptr_f = Ptr 0 0\<rparr>, size_f = 3, capacity_f = 3\<rparr> [Some [1, 2, 3 :: int], Some [1, 2, 3], Some [1, 2], Some [1, 2, 4]] = Inr True
   \<and> op_ne 0 \<lparr>ptr_f = \<lparr>raw_ptr_f = Ptr 0 0\<rparr>, size_f = 3, capacity_f = 3\<rparr> \<lparr>ptr_f = \<lparr>raw_ptr_f = Ptr 2 0\<rparr>, size_f = 2, capacity_f = 2\<rparr> [Some [1, 2, 3 :: int], Some [1, 2, 3], Some [1, 2], Some [1, 2, 4]]
       = Inr (True, [Some [1, 2, 3], Some [1, 2, 3], Some [1, 2], Some [1, 2, 4], None])"
proof -
  let ?h = "[Some [1, 2, 3 :: int], Some [1, 2, 3], Some [1, 2], Some [1, 2, 4]]"
  let ?a = "\<lparr>ptr_f = \<lparr>raw_ptr_f = Ptr 0 0\<rparr>, size_f = 3, capacity_f = 3\<rparr>" and ?b = "\<lparr>ptr_f = \<lparr>raw_ptr_f = Ptr 1 0\<rparr>, size_f = 3, capacity_f = 3\<rparr>" and ?c = "\<lparr>ptr_f = \<lparr>raw_ptr_f = Ptr 2 0\<rparr>, size_f = 2, capacity_f = 2\<rparr>" and ?d = "\<lparr>ptr_f = \<lparr>raw_ptr_f = Ptr 3 0\<rparr>, size_f = 3, capacity_f = 3\<rparr>"
  have wfa: "well_formed (?h, ?a)" by code_simp
  have ela: "elements (?h, ?a) = Inr [1, 2, 3]" by code_simp
  have wfd: "well_formed (?h, ?d)" by code_simp
  have eld: "elements (?h, ?d) = Inr [1, 2, 4]" by code_simp
  have e1: "op_eq False ?a ?b ?h = Inr True" by code_simp
  have e2: "op_eq False ?a ?c ?h = Inr False" by code_simp
  have e3: "op_lt ?c ?a ?h = Inr True" by code_simp
  have e4: "op_ne 0 ?a ?c ?h
       = Inr (True, [Some [1, 2, 3], Some [1, 2, 3], Some [1, 2], Some [1, 2, 4], None])"
    by code_simp
  have "False \<Longrightarrow> ?a = ?d" by simp
  note inst = comparison_operators [where same = False and d = 0, OF wfa ela wfd eld this]
  have lt: "([1, 2, 3 :: int], [1, 2, 4]) \<in> lexord {(x, y). x < y}" by simp
  have gt: "([1, 2, 4 :: int], [1, 2, 3]) \<notin> lexord {(x, y). x < y}" by simp
  have ne: "[1, 2, 3 :: int] \<noteq> [1, 2, 4]" by simp
  from inst lt gt ne have
    "op_eq False ?a ?d ?h = Inr False" "op_lt ?a ?d ?h = Inr True"
    "\<exists>h'. op_ne 0 ?a ?d ?h = Inr (True, h')" "op_le ?a ?d ?h = Inr True"
    "op_gt ?a ?d ?h = Inr False" "op_ge ?a ?d ?h = Inr False"
    by simp_all
  with wfa ela wfd eld e1 e2 e3 e4 show ?thesis by blast
qed

section \<open>The invariant without moves\<close>

lemma and_then_eq_Inr: "and_then m f = Inr y \<longleftrightarrow> (\<exists>x. m = Inr x \<and> f x = Inr y)"
  by (cases m) simp_all

lemma assert_eq_Inr: "assert b = Inr u \<longleftrightarrow> b"
  by (cases b) simp_all

lemma Insert_returns:
  assumes "Insert d pos v (h, this) = Inr r"
  obtains e where "end_it this = Inr e" "ptr_le (begin_it this) pos" "ptr_le pos e"
  using assms by (auto simp: Insert_def and_then_eq_Inr assert_eq_Inr)

lemma Erase_returns:
  assumes wf: "well_formed (h, this)" and r: "Erase pos (h, this) = Inr r"
  obtains a p where "raw_ptr_f (ptr_f this) = Ptr a 0" "pos = Ptr a p" "p < size_f this"
proof -
  from r obtain e first r' where e: "end_it this = Inr e"
    and le: "ptr_le (begin_it this) pos" "ptr_le pos e"
    and f: "ptr_add pos 1 = Inr first" and m: "std_move first e pos h = Inr r'"
    by (auto simp: Erase_def and_then_eq_Inr assert_eq_Inr)
  from wf e le show ?thesis
  proof (cases rule: position_cases)
    case null
    with f show ?thesis by (simp add: ptr_add_def)
  next
    case (array a p)
    with e f have "e = Ptr a (size_f this)" "first = Ptr a (p + 1)"
      by (auto simp: end_it_def Get_def)
    with m have "p + 1 \<le> size_f this"
      by (auto simp: std_move_def std_copy_def distance_def and_then_eq_Inr split: if_splits)
    with array show ?thesis using that by simp
  qed
qed

text \<open>Every vector built by a constructor and changed by any operation other than a move
  is well-formed; in particular it satisfies the invariant.\<close>

lemma reachable_well_formed: "reachable d st \<Longrightarrow> well_formed st"
proof (induction rule: reachable.induct)
  case (r_default h)
  then show ?case by (simp add: SimpleVector_default_ok)
next
  case (r_reserve n h st)
  then show ?case using SimpleVector_reserve_ok [of d n h] by auto
next
  case (r_size n h st)
  then show ?case using SimpleVector_size_ok [of d n h] by auto
next
  case (r_fill n v h st)
  then show ?case using SimpleVector_fill_ok [of d n v h] by auto
next
  case (r_init vs h st)
  then show ?case using SimpleVector_init_ok [of d vs h] by auto
next
  case (r_copy h sv st)
  from r_copy.IH obtain xs where "elements (h, sv) = Inr xs" by (rule well_formed_elements)
  then obtain h' this' where "SimpleVector_copy d sv h = Inr (h', this')" "well_formed (h', this')"
    using SimpleVector_copy_ok [OF r_copy.IH, of xs d] by metis
  with r_copy.hyps(2) show ?case by simp
next
  case (r_copy_assign h objs this rhs h' objs')
  from r_copy_assign.IH(2) obtain xs where "elements (h, objs rhs) = Inr xs"
    by (rule well_formed_elements)
  then obtain h1 this' where "copy_assign d this rhs (h, objs) = Inr (h1, objs(this := this'))"
    "well_formed (h1, this')"
    using copy_assign_ok [where objs = objs and rhs = rhs and this = this and d = d,
      OF r_copy_assign.IH(2) _ r_copy_assign.IH(1)] by metis
  with r_copy_assign.hyps(3) show ?case by auto
next
  case (r_swap h objs sv this)
  then show ?case by (simp add: swap_fields)
next
  case (r_PushBack st v st')
  obtain h this where st: "st = (h, this)" by (cases st)
  obtain h' this' where st': "st' = (h', this')" by (cases st')
  from r_PushBack.IH r_PushBack.hyps(2) show ?case
    unfolding st st' by (rule PushBack_returns_ok)
next
  case (r_PopBack st st')
  obtain h this where st: "st = (h, this)" by (cases st)
  from r_PopBack.IH st obtain xs where el: "elements (h, this) = Inr xs"
    by (auto elim: well_formed_elements)
  from r_PopBack.hyps(2) st have "size_f this \<noteq> 0"
    by (auto simp: PopBack_def and_then_eq_Inr assert_eq_Inr)
  from PopBack_ok [OF r_PopBack.IH [unfolded st] el this, of d] r_PopBack.hyps(2) st
  show ?case by auto
next
  case (r_Insert st pos v it st')
  obtain h this where st: "st = (h, this)" by (cases st)
  note wf = r_Insert.IH [unfolded st]
  from wf obtain xs where el: "elements (h, this) = Inr xs" by (rule well_formed_elements)
  from r_Insert.hyps(2) st obtain e where e: "end_it this = Inr e"
    "ptr_le (begin_it this) pos" "ptr_le pos e"
    by (auto elim: Insert_returns)
  from r_Insert.hyps(2) st obtain x where x: "Insert d pos (Object x) (h, this) = Inr (it, st')"
    by (auto elim: Insert_reads)
  obtain it' h' this' where "Insert d pos (Object x) (h, this) = Inr (it', h', this')"
    "well_formed (h', this')"
    using Insert_ok [OF wf el e, of "Object x" x d] by (metis read_ref_Object refers_into_Object)
  with x show ?case by simp
next
  case (r_Erase st pos it st')
  obtain h this where st: "st = (h, this)" by (cases st)
  note wf = r_Erase.IH [unfolded st]
  from wf obtain xs where el: "elements (h, this) = Inr xs" by (rule well_formed_elements)
  from wf r_Erase.hyps(2) st obtain a p where p: "raw_ptr_f (ptr_f this) = Ptr a 0"
    "pos = Ptr a p" "p < size_f this"
    by (auto elim: Erase_returns)
  obtain h' where "Erase (Ptr a p) (h, this) = Inr (Ptr a p, h', this\<lparr>size_f := size_f this - 1\<rparr>)"
    "well_formed (h', this\<lparr>size_f := size_f this - 1\<rparr>)"
    using Erase_ok [OF p(1) wf el p(3)] by metis
  with r_Erase.hyps(2) st p(2) show ?case by simp
next
  case (r_Resize st n st')
  obtain h this where st: "st = (h, this)" by (cases st)
  note wf = r_Resize.IH [unfolded st]
  from wf obtain xs where el: "elements (h, this) = Inr xs" by (rule well_formed_elements)
  from Resize_ok [OF wf el, of d n] r_Resize.hyps(2) st show ?case by auto
next
  case (r_Reserve st n st')
  obtain h this where st: "st = (h, this)" by (cases st)
  note wf = r_Reserve.IH [unfolded st]
  from wf obtain xs where el: "elements (h, this) = Inr xs" by (rule well_formed_elements)
  from Reserve_ok [OF wf el, of d n] r_Reserve.hyps(2) st show ?case by auto
next
  case (r_Clear st)
  then show ?case by (cases st) (simp add: Clear_ok)
qed

section \<open>Moving\<close>

text \<open>
  Both move operations run \<open>move_body\<close>. Its last statement reads \<^verbatim>\<open>rhs.size_\<close>, which the
  statement before has set to 0, where \<^verbatim>\<open>rhs.capacity_\<close> would be the capacity to take over:
  the target gets capacity 0 and the source keeps its capacity.
\<close>

lemma move_body_fields:
  assumes "this \<noteq> rhs"
  shows "move_body this rhs objs this
      = (objs this)\<lparr>ptr_f := ptr_f (objs rhs), size_f := size_f (objs rhs), capacity_f := 0\<rparr>"
    and "move_body this rhs objs rhs
      = (objs rhs)\<lparr>ptr_f := ptr_f (objs this), size_f := 0\<rparr>"
  using assms by (simp_all add: move_body_def ArrayPtr_swap_def Let_def)


text \<open>
  C1, evaluated on the code: \<open>a = {1, 2, 3}\<close> has size 3 and capacity 3. After
  \<^verbatim>\<open>SimpleVector b(std::move(a))\<close>, and after \<^verbatim>\<open>b = std::move(a)\<close> for an empty \<open>b\<close>, the
  target \<open>b\<close> has size 3 and holds \<open>1, 2, 3\<close>, and the source \<open>a\<close> has size 0, as the claim
  says; but \<open>b\<close> has capacity 0 and \<open>a\<close> still has capacity 3, where the claim says 3 and 0.
\<close>

theorem move_loses_capacity:
  "SimpleVector_init 0 [1, 2, 3 :: int] []
     = Inr ([Some [1, 2, 3]], \<lparr>ptr_f = \<lparr>raw_ptr_f = Ptr 0 0\<rparr>, size_f = 3, capacity_f = 3\<rparr>)
   \<and> GetSize (SimpleVector_move 1 0
        (\<lambda>i. if i = 0 then \<lparr>ptr_f = \<lparr>raw_ptr_f = Ptr 0 0\<rparr>, size_f = 3, capacity_f = 3\<rparr>
              else SimpleVector_default) 1) = 3
   \<and> elements ([Some [1, 2, 3 :: int]], SimpleVector_move 1 0
        (\<lambda>i. if i = 0 then \<lparr>ptr_f = \<lparr>raw_ptr_f = Ptr 0 0\<rparr>, size_f = 3, capacity_f = 3\<rparr>
              else SimpleVector_default) 1) = Inr [1, 2, 3]
   \<and> GetCapacity (SimpleVector_move 1 0
        (\<lambda>i. if i = 0 then \<lparr>ptr_f = \<lparr>raw_ptr_f = Ptr 0 0\<rparr>, size_f = 3, capacity_f = 3\<rparr>
              else SimpleVector_default) 1) = 0
   \<and> GetSize (SimpleVector_move 1 0
        (\<lambda>i. if i = 0 then \<lparr>ptr_f = \<lparr>raw_ptr_f = Ptr 0 0\<rparr>, size_f = 3, capacity_f = 3\<rparr>
              else SimpleVector_default) 0) = 0
   \<and> GetCapacity (SimpleVector_move 1 0
        (\<lambda>i. if i = 0 then \<lparr>ptr_f = \<lparr>raw_ptr_f = Ptr 0 0\<rparr>, size_f = 3, capacity_f = 3\<rparr>
              else SimpleVector_default) 0) = 3
   \<and> GetSize (move_assign 1 0
        (\<lambda>i. if i = 0 then \<lparr>ptr_f = \<lparr>raw_ptr_f = Ptr 0 0\<rparr>, size_f = 3, capacity_f = 3\<rparr>
              else SimpleVector_default) 1) = 3
   \<and> GetCapacity (move_assign 1 0
        (\<lambda>i. if i = 0 then \<lparr>ptr_f = \<lparr>raw_ptr_f = Ptr 0 0\<rparr>, size_f = 3, capacity_f = 3\<rparr>
              else SimpleVector_default) 1) = 0
   \<and> GetSize (move_assign 1 0
        (\<lambda>i. if i = 0 then \<lparr>ptr_f = \<lparr>raw_ptr_f = Ptr 0 0\<rparr>, size_f = 3, capacity_f = 3\<rparr>
              else SimpleVector_default) 0) = 0
   \<and> GetCapacity (move_assign 1 0
        (\<lambda>i. if i = 0 then \<lparr>ptr_f = \<lparr>raw_ptr_f = Ptr 0 0\<rparr>, size_f = 3, capacity_f = 3\<rparr>
              else SimpleVector_default) 0) = 3"
  by code_simp


text \<open>
  C2, evaluated on the code: \<open>a = {1, 2, 3}\<close> satisfies the invariant; the vector
  move-constructed from it has size 3 and capacity 0, which violates \<open>size \<le> capacity\<close>.
  \<^verbatim>\<open>PushBack\<close> on it sees \<open>size \<noteq> capacity\<close>, does not grow and writes past the end of
  the array; \<^verbatim>\<open>PushBack\<close> on the moved-from vector (null buffer, capacity 3) writes
  through the null pointer. Move assignment to an empty vector breaks the invariant in
  the same way. Without moves the invariant holds (lemma \<open>reachable_well_formed\<close>).
\<close>

theorem move_breaks_invariant:
  "invariant \<lparr>ptr_f = \<lparr>raw_ptr_f = Ptr 0 0\<rparr>, size_f = 3, capacity_f = 3\<rparr>
   \<and> SimpleVector_move 1 0 (\<lambda>i. if i = 0 then \<lparr>ptr_f = \<lparr>raw_ptr_f = Ptr 0 0\<rparr>, size_f = 3, capacity_f = 3\<rparr>
              else SimpleVector_default) 1
       = \<lparr>ptr_f = \<lparr>raw_ptr_f = Ptr 0 0\<rparr>, size_f = 3, capacity_f = 0\<rparr>
   \<and> \<not> invariant (SimpleVector_move 1 0
        (\<lambda>i. if i = 0 then \<lparr>ptr_f = \<lparr>raw_ptr_f = Ptr 0 0\<rparr>, size_f = 3, capacity_f = 3\<rparr>
              else SimpleVector_default) 1)
   \<and> PushBack 0 (Object 4) ([Some [1, 2, 3 :: int]], SimpleVector_move 1 0
        (\<lambda>i. if i = 0 then \<lparr>ptr_f = \<lparr>raw_ptr_f = Ptr 0 0\<rparr>, size_f = 3, capacity_f = 3\<rparr>
              else SimpleVector_default) 1)
       = Inl UndefinedBehaviour
   \<and> SimpleVector_move 1 0 (\<lambda>i. if i = 0 then \<lparr>ptr_f = \<lparr>raw_ptr_f = Ptr 0 0\<rparr>, size_f = 3, capacity_f = 3\<rparr>
              else SimpleVector_default) 0
       = \<lparr>ptr_f = \<lparr>raw_ptr_f = Null\<rparr>, size_f = 0, capacity_f = 3\<rparr>
   \<and> PushBack 0 (Object 4) ([Some [1, 2, 3 :: int]], SimpleVector_move 1 0
        (\<lambda>i. if i = 0 then \<lparr>ptr_f = \<lparr>raw_ptr_f = Ptr 0 0\<rparr>, size_f = 3, capacity_f = 3\<rparr>
              else SimpleVector_default) 0)
       = Inl UndefinedBehaviour
   \<and> \<not> invariant (move_assign 1 0
        (\<lambda>i. if i = 0 then \<lparr>ptr_f = \<lparr>raw_ptr_f = Ptr 0 0\<rparr>, size_f = 3, capacity_f = 3\<rparr>
              else SimpleVector_default) 1)"
  by code_simp

end
